theory Spec2Isabelle
  imports Complex_Main "HOL-Library.Multiset"
begin

section \<open>Python values the commands work with\<close>

text \<open>
  Exceptions are values: a function that can raise returns \<open>error + 'a\<close>, with
  \<open>Inl\<close> for the exception.
\<close>

datatype error =
    ValueError
  | IndexError
  | ZeroDivisionError
  | OverflowError
  | DataError
  | ProgrammingError
  | ClientError
  | OSError
  | MiddlewareNotUsed

text \<open>
  \<open>str(n)\<close> for a Python int: the decimal digits, with a leading minus sign
  for a negative number. This is what an f-string writes for \<open>{n}\<close>.
\<close>

definition digit_char :: "nat \<Rightarrow> char" where
  "digit_char d = ''0123456789'' ! d"

function str_nat :: "nat \<Rightarrow> string" where
  "str_nat n = (if n < 10 then [digit_char n] else str_nat (n div 10) @ [digit_char (n mod 10)])"
  by pat_completeness auto
termination
  by (relation "measure (\<lambda>n. n)") auto

declare str_nat.simps [simp del]

definition py_str :: "int \<Rightarrow> string" where
  "py_str i = (if i < 0 then CHR ''-'' # str_nat (nat (- i)) else str_nat (nat i))"

section \<open>update\_opinions\_order: n-grams\<close>

text \<open>
  \<^verbatim>\<open>
  def generate_ngrams(words):
      if len(words) <= 5:
          return [[x] for x in words]
      elif 5 < len(words) < 25:
          return [words[i : i + 2] for i in range(len(words) - 1)]
      else:
          return [words[i : i + 5] for i in range(len(words) - 4)]
  \<close>
  The slice \<open>words[i : i + n]\<close> is \<open>take n (drop i words)\<close>: a slice never raises,
  it is cut at the end of the list.
\<close>

definition slice :: "'a list \<Rightarrow> nat \<Rightarrow> nat \<Rightarrow> 'a list" where
  "slice xs i j = take (j - i) (drop i xs)"

definition generate_ngrams :: "'a list \<Rightarrow> 'a list list" where
  "generate_ngrams words =
     (if length words \<le> 5 then map (\<lambda>x. [x]) words
      else if 5 < length words \<and> length words < 25
        then map (\<lambda>i. slice words i (i + 2)) [0 ..< length words - 1]
      else map (\<lambda>i. slice words i (i + 5)) [0 ..< length words - 4])"

section \<open>make\_aws\_manifest\_files: sub-batches and file names\<close>

text \<open>
  \<open>itertools.batched(rows, n)\<close> raises \<open>ValueError\<close> when \<open>n < 1\<close>; otherwise it
  yields the rows \<open>n\<close> at a time, the last group holding what is left.
\<close>

function batches :: "nat \<Rightarrow> 'a list \<Rightarrow> 'a list list" where
  "batches n xs = (if n = 0 \<or> xs = [] then [] else take n xs # batches n (drop n xs))"
  by pat_completeness auto
termination
  by (relation "measure (\<lambda>(n, xs). length xs)") auto

declare batches.simps [simp del]

definition batched :: "'a list \<Rightarrow> int \<Rightarrow> error + 'a list list" where
  "batched rows n = (if n < 1 then Inl ValueError else Inr (batches (nat n) rows))"

text \<open>
  The \<open>file_name\<close> of one group of rows (each row is the 1-tuple \<open>(id,)\<close>, kept here
  as the id):
  \<^verbatim>\<open>
  f"{row[0][0]}_{row[-1][0]}" if len(row) > 1 else f"{row[0][0]}"
  \<close>
  \<open>row[0]\<close> of an empty group would raise \<open>IndexError\<close>; \<open>batched\<close> never yields one.
\<close>

definition file_name :: "int list \<Rightarrow> error + string" where
  "file_name row =
     (if row = [] then Inl IndexError
      else if length row > 1 then Inr (py_str (hd row) @ ''_'' @ py_str (last row))
      else Inr (py_str (hd row)))"

section \<open>make\_aws\_manifest\_files: the CSV manifest\<close>

text \<open>
  \<open>csv.DictWriter(csvfile, fieldnames=["bucket", "file_name"])\<close> writes with the
  \<open>excel\<close> dialect: fields joined by a comma, each row ended by CR LF, and a field
  put in double quotes (its own double quotes doubled) exactly when it holds a comma, a
  double quote, a CR or an LF. The command calls \<open>writer.writerow\<close> only; it never calls
  \<open>writer.writeheader\<close>. Strings are kept as their UTF-8 bytes, which the quoting rule
  reads the same way as the text, so \<open>getvalue().encode("utf-8")\<close> is the string itself.
\<close>

definition csv_special :: "char \<Rightarrow> bool" where
  "csv_special c = (c = CHR 0x2C \<or> c = CHR 0x22 \<or> c = CHR 0x0D \<or> c = CHR 0x0A)"

definition csv_field :: "string \<Rightarrow> string" where
  "csv_field s =
     (if list_ex csv_special s
      then [CHR 0x22] @ concat (map (\<lambda>c. if c = CHR 0x22 then [c, c] else [c]) s) @ [CHR 0x22]
      else s)"

fun join_fields :: "string list \<Rightarrow> string" where
  "join_fields [] = []"
| "join_fields [f] = f"
| "join_fields (f # fs) = f @ '','' @ join_fields fs"

definition writerow :: "string list \<Rightarrow> string" where
  "writerow fields = join_fields (map csv_field fields) @ [CHR 0x0D, CHR 0x0A]"

text \<open>
  The body of the \<open>with io.StringIO() as csvfile\<close> block up to the upload: one
  \<open>writerow\<close> per group of \<open>batched(rows, lambda_record_size)\<close>, the dictionary's two
  values in the order of \<open>fieldnames\<close>.
\<close>

fun write_rows :: "string \<Rightarrow> int list list \<Rightarrow> error + string" where
  "write_rows bucket [] = Inr []"
| "write_rows bucket (row # rest) =
     (case file_name row of
        Inl e \<Rightarrow> Inl e
      | Inr f \<Rightarrow>
          (case write_rows bucket rest of
             Inl e \<Rightarrow> Inl e
           | Inr s \<Rightarrow> Inr (writerow [bucket, f] @ s)))"

definition manifest_body :: "string \<Rightarrow> int list \<Rightarrow> int \<Rightarrow> error + string" where
  "manifest_body bucket rows n =
     (case batched rows n of Inl e \<Rightarrow> Inl e | Inr groups \<Rightarrow> write_rows bucket groups)"

section \<open>make\_aws\_manifest\_files: queries\<close>

text \<open>
  \<open>--record-type\<close> is restricted by \<open>choices\<close> to three of the \<open>SEARCH_TYPES\<close>
  constants. Each has its table and its fixed row filter
  (\<open>is_available=True AND page_count>0 AND ocr_status!=1\<close>, \<open>extracted_by_ocr != true\<close>,
  \<open>stt_status = 1\<close>), the same in the count query and in the page query.
\<close>

datatype search_type = RECAP_DOCUMENT | OPINION | ORAL_ARGUMENT

datatype table = search_recapdocument | search_opinion | audio_audio

text \<open>
  The value of the variable \<open>last_pk\<close>: \<open>None\<close> or the string that \<open>r.hget\<close> read
  from the cache, and from the first finished iteration on the int \<open>rows[-1][0]\<close>. The
  hash is written by this command only, always from ints, so a cached string is the
  decimal text of an int and \<open>CachedPk n\<close> stands for the string \<open>str(n)\<close>. Python's
  truth test differs: a non-empty string is true, also \<open>"0"\<close>; the int \<open>0\<close> is false.
\<close>

datatype pk = NoPk | CachedPk int | RowPk int

definition truthy :: "pk \<Rightarrow> bool" where
  "truthy p = (case p of NoPk \<Rightarrow> False | CachedPk s \<Rightarrow> True | RowPk i \<Rightarrow> i \<noteq> 0)"

text \<open>
  A query text of \<open>get_custom_query\<close> is
  \<open>SELECT id from <table> WHERE [id > %s AND] <row filter> ORDER BY id LIMIT %s\<close>;
  it is kept as its table and whether the \<open>id > %s\<close> condition is there. The
  parameters are the values for the \<open>%s\<close> placeholders, as the database reads them.
\<close>

record query =
  from_table :: table
  id_greater :: bool

definition get_custom_query :: "search_type \<Rightarrow> pk \<Rightarrow> query \<times> int list" where
  "get_custom_query type lp =
     (let q = (case type of
                 RECAP_DOCUMENT \<Rightarrow>
                   \<lparr>from_table = search_recapdocument,
                    id_greater = (if \<not> truthy lp then False else True)\<rparr>
               | OPINION \<Rightarrow>
                   \<lparr>from_table = search_opinion,
                    id_greater = (if \<not> truthy lp then False else True)\<rparr>
               | ORAL_ARGUMENT \<Rightarrow>
                   \<lparr>from_table = audio_audio,
                    id_greater = (if \<not> truthy lp then False else True)\<rparr>);
          params = (case lp of
                      NoPk \<Rightarrow> []
                    | CachedPk s \<Rightarrow> [s]
                    | RowPk i \<Rightarrow> (if i \<noteq> 0 then [i] else []))
      in (q, params))"

text \<open>
  A database connection gives, for each table, the primary keys of the rows that pass
  the table's row filter. \<open>cursor.execute\<close> of a page query returns the keys above the
  bound, in ascending order, at most \<open>LIMIT\<close> of them; a negative \<open>LIMIT\<close> is an error
  of the database. The count query returns how many rows pass the filter.
\<close>

definition cursor_execute :: "(table \<Rightarrow> int list) \<Rightarrow> query \<Rightarrow> int list \<Rightarrow> error + int list" where
  "cursor_execute db q params =
     (if id_greater q then
        (case params of
           [p, lmt] \<Rightarrow>
             if lmt < 0 then Inl DataError
             else Inr (take (nat lmt) (sort (filter (\<lambda>i. p < i) (db (from_table q)))))
         | _ \<Rightarrow> Inl ProgrammingError)
      else
        (case params of
           [lmt] \<Rightarrow>
             if lmt < 0 then Inl DataError
             else Inr (take (nat lmt) (sort (db (from_table q))))
         | _ \<Rightarrow> Inl ProgrammingError))"

definition table_of :: "search_type \<Rightarrow> table" where
  "table_of type =
     (case type of
        RECAP_DOCUMENT \<Rightarrow> search_recapdocument
      | OPINION \<Rightarrow> search_opinion
      | ORAL_ARGUMENT \<Rightarrow> audio_audio)"

definition get_total_number_of_records :: "(table \<Rightarrow> int list) \<Rightarrow> search_type \<Rightarrow> int" where
  "get_total_number_of_records db type = int (length (db (table_of type)))"

section \<open>make\_aws\_manifest\_files: the export driver\<close>

text \<open>
  The hash \<open>{record_type}_import_status\<close> of the cache, one optional value per field.
  \<open>r.delete\<close> removes the hash, which leaves every field unset.
\<close>

record import_status =
  last_pk :: "int option"
  total_records :: "int option"
  next_iteration_counter :: "int option"
  records_processed :: "int option"

definition no_status :: import_status where
  "no_status = \<lparr>last_pk = None, total_records = None,
                 next_iteration_counter = None, records_processed = None\<rparr>"

record options =
  record_type :: search_type
  bucket_name :: string
  query_batch_size :: int
  lambda_record_size :: int
  use_replica :: bool

text \<open>
  What the command runs against: the values of the \<open>SEARCH_TYPES\<close> constants (they are
  defined in \<open>cl.search.models\<close>), the two database connections (\<open>True\<close> is the
  replica), and the keys for which \<open>s3_client.put_object\<close> fails. The tables are live:
  the count query runs first, on the tables as they are then
  (\<open>connections_at_count\<close>), and the page queries run later, on the tables as the
  loop finds them (\<open>connections\<close>). Nothing ties the two together.
\<close>

record env =
  SEARCH_TYPES :: "search_type \<Rightarrow> string"
  connections_at_count :: "bool \<Rightarrow> table \<Rightarrow> int list"
  connections :: "bool \<Rightarrow> table \<Rightarrow> int list"
  put_object_fails :: "string \<Rightarrow> bool"

text \<open>
  The calls that took effect, in order: the queries with what they returned, the
  uploads with \<open>Key\<close>, \<open>Bucket\<close> and \<open>Body\<close>, the writes to the cache.
\<close>

datatype event =
    CountQuery int
  | SelectQuery query "int list" "int list"
  | PutObject string string string
  | HSetTotal int
  | HSetProgress int int int
  | Delete

datatype outcome = Finished | Raised error | OutOfFuel

text \<open>
  The progress line computes \<open>(record_count + records_processed) * 1.0 / total_number_of_records\<close>:
  an int of magnitude \<open>2^1024 - 2^970\<close> or more does not convert to a float
  (\<open>OverflowError\<close>), and a zero total raises \<open>ZeroDivisionError\<close>.
\<close>

definition float_overflow :: "int \<Rightarrow> bool" where
  "float_overflow x = (2 ^ 1024 - 2 ^ 970 \<le> \<bar>x\<bar>)"

definition log_progress :: "int \<Rightarrow> int \<Rightarrow> int \<Rightarrow> error + unit" where
  "log_progress record_count processed total_number =
     (if float_overflow (record_count + processed) then Inl OverflowError
      else if float_overflow total_number then Inl OverflowError
      else if total_number = 0 then Inl ZeroDivisionError
      else Inr ())"

text \<open>The \<open>Key\<close> of an upload: \<open>f"{record_type}_filelist_{counter}.csv"\<close>.\<close>

definition object_key :: "string \<Rightarrow> int \<Rightarrow> string" where
  "object_key type_value counter = type_value @ ''_filelist_'' @ py_str counter @ ''.csv''"

text \<open>
  One iteration of the \<open>while True\<close> loop of \<open>handle\<close>. It either ends the loop
  (by \<open>break\<close> on an empty page, or by an exception) or goes on with the new values of
  \<open>last_pk\<close> and \<open>counter\<close>; both ways it gives the hash as it leaves it and the
  events of the iteration. A call that raises leaves no event. The page query and the
  upload can fail; the calls to the cache are taken to succeed.
\<close>

definition fetch_page :: "env \<Rightarrow> options \<Rightarrow> pk \<Rightarrow> error + query \<times> int list \<times> int list" where
  "fetch_page e opts lp =
     (case get_custom_query (record_type opts) lp of
        (q, params0) \<Rightarrow>
          let params = params0 @ [query_batch_size opts] in
          (case cursor_execute (connections e (use_replica opts)) q params of
             Inl err \<Rightarrow> Inl err
           | Inr rows \<Rightarrow> Inr (q, params, rows)))"

datatype step =
    Stop outcome import_status "event list"
  | Continue pk int import_status "event list"

definition loop_body ::
  "env \<Rightarrow> options \<Rightarrow> int \<Rightarrow> pk \<Rightarrow> int \<Rightarrow> import_status \<Rightarrow> step" where
  "loop_body e opts total_number lp counter r =
     (case fetch_page e opts lp of
        Inl err \<Rightarrow> Stop (Raised err) r []
      | Inr (q, params, rows) \<Rightarrow>
          let record_count = int (length rows) in
          if record_count = 0 then Stop Finished r [SelectQuery q params rows]
          else
            (case manifest_body (bucket_name opts) rows (lambda_record_size opts) of
               Inl err \<Rightarrow> Stop (Raised err) r [SelectQuery q params rows]
             | Inr body \<Rightarrow>
                 let key = object_key (SEARCH_TYPES e (record_type opts)) counter in
                 if put_object_fails e key
                 then Stop (Raised ClientError) r [SelectQuery q params rows]
                 else
                   let counter' = counter + 1;
                       processed = (case records_processed r of None \<Rightarrow> 0 | Some n \<Rightarrow> n);
                       r' = r\<lparr>last_pk := Some (last rows),
                              next_iteration_counter := Some counter',
                              records_processed := Some (processed + record_count)\<rparr>;
                       evs = [SelectQuery q params rows,
                              PutObject key (bucket_name opts) body,
                              HSetProgress (last rows) counter' (processed + record_count)]
                   in (case log_progress record_count processed total_number of
                         Inl err \<Rightarrow> Stop (Raised err) r' evs
                       | Inr u \<Rightarrow> Continue (RowPk (last rows)) counter' r' evs)))"

text \<open>
  The loop, one iteration per unit of fuel; \<open>OutOfFuel\<close> says that the loop is still
  running after that many iterations.
\<close>

fun export_loop ::
  "nat \<Rightarrow> env \<Rightarrow> options \<Rightarrow> int \<Rightarrow> pk \<Rightarrow> int \<Rightarrow> import_status
     \<Rightarrow> outcome \<times> import_status \<times> event list" where
  "export_loop 0 e opts total_number lp counter r = (OutOfFuel, r, [])"
| "export_loop (Suc fuel) e opts total_number lp counter r =
     (case loop_body e opts total_number lp counter r of
        Stop out r' evs \<Rightarrow> (out, r', evs)
      | Continue lp' counter' r' evs \<Rightarrow>
          (case export_loop fuel e opts total_number lp' counter' r' of
             (out, r'', evs') \<Rightarrow> (out, r'', evs @ evs')))"

text \<open>
  \<open>Command.handle\<close>: read the checkpoint, count the records unless a non-zero total
  is cached, run the loop, and delete the hash when the loop ends by \<open>break\<close>.
\<close>

definition cached_pk :: "import_status \<Rightarrow> pk" where
  "cached_pk r = (case last_pk r of None \<Rightarrow> NoPk | Some s \<Rightarrow> CachedPk s)"

definition handle ::
  "nat \<Rightarrow> env \<Rightarrow> options \<Rightarrow> import_status \<Rightarrow> outcome \<times> import_status \<times> event list" where
  "handle fuel e opts r =
     (let lp = cached_pk r;
          cached_total = (case total_records r of None \<Rightarrow> 0 | Some n \<Rightarrow> n);
          counted = get_total_number_of_records
                      (connections_at_count e (use_replica opts)) (record_type opts);
          total_number = (if cached_total = 0 then counted else cached_total);
          r1 = (if cached_total = 0 then r\<lparr>total_records := Some counted\<rparr> else r);
          evs1 = (if cached_total = 0 then [CountQuery counted, HSetTotal counted] else []);
          counter = (case next_iteration_counter r1 of None \<Rightarrow> 0 | Some c \<Rightarrow> c)
      in (case export_loop fuel e opts total_number lp counter r1 of
            (Finished, r2, evs2) \<Rightarrow> (Finished, no_status, evs1 @ evs2 @ [Delete])
          | (out, r2, evs2) \<Rightarrow> (out, r2, evs1 @ evs2)))"

subsection \<open>Reading a run's events\<close>

text \<open>The pages that the page queries returned, and the objects uploaded, in order.\<close>

fun pages :: "event list \<Rightarrow> int list list" where
  "pages [] = []"
| "pages (SelectQuery q params rows # evs) = rows # pages evs"
| "pages (ev # evs) = pages evs"

fun uploads :: "event list \<Rightarrow> (string \<times> string \<times> string) list" where
  "uploads [] = []"
| "uploads (PutObject key bucket body # evs) = (key, bucket, body) # uploads evs"
| "uploads (ev # evs) = uploads evs"

text \<open>
  A committed batch: a page, the upload of its manifest and the write of the progress
  to the cache, one right after the other. \<open>commits\<close> lists, for each, the page, the
  body uploaded and the \<open>last_pk\<close> stored.
\<close>

fun commits :: "event list \<Rightarrow> (int list \<times> string \<times> int) list" where
  "commits (SelectQuery q params rows # PutObject key bucket body # HSetProgress lp c n # evs) =
     (rows, body, lp) # commits evs"
| "commits (ev # evs) = commits evs"
| "commits [] = []"

text \<open>The characters of a file name: digits, the minus sign and the underscore.\<close>

definition plain_char :: "char \<Rightarrow> bool" where
  "plain_char c = (c \<in> set ''_-0123456789'')"

text \<open>
  The total that a run works with, the variable \<open>total_number_of_records\<close> from line
  184 on: the cached value, or the fresh count when no value is cached or it is 0.
\<close>

definition total_in_use :: "env \<Rightarrow> options \<Rightarrow> int option \<Rightarrow> int" where
  "total_in_use e opts cached =
     (if (case cached of None \<Rightarrow> 0 | Some n \<Rightarrow> n) = 0
      then get_total_number_of_records (connections_at_count e (use_replica opts))
             (record_type opts)
      else (case cached of None \<Rightarrow> 0 | Some n \<Rightarrow> n))"

text \<open>An example to run the command on.\<close>

definition example_env :: env where
  "example_env =
     \<lparr>SEARCH_TYPES = (\<lambda>t. case t of RECAP_DOCUMENT \<Rightarrow> ''rd'' | OPINION \<Rightarrow> ''o''
                              | ORAL_ARGUMENT \<Rightarrow> ''oa''),
      connections_at_count = (\<lambda>replica t. case t of search_opinion \<Rightarrow> [3, 1, 2, 7, 5]
                                                   | search_recapdocument \<Rightarrow> []
                                                   | audio_audio \<Rightarrow> []),
      connections = (\<lambda>replica t. case t of search_opinion \<Rightarrow> [3, 1, 2, 7, 5]
                                          | search_recapdocument \<Rightarrow> [4, 6, 9]
                                          | audio_audio \<Rightarrow> []),
      put_object_fails = (\<lambda>key. key = ''o_filelist_2.csv'')\<rparr>"

definition example_options :: "search_type \<Rightarrow> options" where
  "example_options t =
     \<lparr>record_type = t, bucket_name = ''bucket'', query_batch_size = 2,
      lambda_record_size = 2, use_replica = False\<rparr>"

section \<open>update\_opinions\_order: matching opinions against the reference text\<close>

text \<open>
  \<open>str.count(sub)\<close> counts the occurrences of \<open>sub\<close> from left to right without
  overlap (the search goes on right after a match), and gives \<open>len(s) + 1\<close> for the
  empty \<open>sub\<close>. \<open>str.find(sub)\<close> gives the lowest index where \<open>sub\<close> occurs, or -1.
  \<open>str.replace(old, new)\<close> replaces the same occurrences that \<open>count\<close> counts;
  it is used here with a non-empty \<open>old\<close>.
\<close>

function py_count :: "string \<Rightarrow> string \<Rightarrow> nat" where
  "py_count s sub =
     (if sub = [] then length s + 1
      else if length s < length sub then 0
      else if take (length sub) s = sub then 1 + py_count (drop (length sub) s) sub
      else py_count (tl s) sub)"
  by pat_completeness auto
termination
proof (relation "measure (\<lambda>(s, sub). length s)")
  fix s sub :: string
  assume "sub \<noteq> []" and "\<not> length s < length sub"
  then have "0 < length sub" and "0 < length s" by (cases sub; cases s; simp)+
  then show "((drop (length sub) s, sub), (s, sub)) \<in> measure (\<lambda>(s, sub). length s)"
    and "((tl s, sub), (s, sub)) \<in> measure (\<lambda>(s, sub). length s)"
    by simp_all
qed simp

declare py_count.simps [simp del]

fun find_from :: "string \<Rightarrow> nat \<Rightarrow> string \<Rightarrow> int" where
  "find_from sub i [] = (if sub = [] then int i else - 1)"
| "find_from sub i (c # cs) =
     (if take (length sub) (c # cs) = sub then int i else find_from sub (i + 1) cs)"

definition py_find :: "string \<Rightarrow> string \<Rightarrow> int" where
  "py_find s sub = find_from sub 0 s"

function py_replace :: "string \<Rightarrow> string \<Rightarrow> string \<Rightarrow> string" where
  "py_replace s old new =
     (if old = [] \<or> length s < length old then s
      else if take (length old) s = old then new @ py_replace (drop (length old) s) old new
      else hd s # py_replace (tl s) old new)"
  by pat_completeness auto
termination
proof (relation "measure (\<lambda>(s, old, new). length s)")
  fix s old new :: string
  assume "\<not> (old = [] \<or> length s < length old)"
  then have "0 < length old" and "0 < length s" by (cases old; cases s; simp)+
  then show "((drop (length old) s, old, new), (s, old, new))
      \<in> measure (\<lambda>(s, old, new). length s)"
    and "((tl s, old, new), (s, old, new)) \<in> measure (\<lambda>(s, old, new). length s)"
    by simp_all
qed simp

declare py_replace.simps [simp del]

text \<open>\<open>" ".join(word_group)\<close>.\<close>

fun join_words :: "string list \<Rightarrow> string" where
  "join_words [] = []"
| "join_words [w] = w"
| "join_words (w # ws) = w @ '' '' @ join_words ws"

text \<open>
  \<open>get_xml\<close> reads the file, takes the text of the parsed document, and runs two
  substitutions over it: \<open>re.sub(r"[^a-zA-Z0-9\s]+", " ", text)\<close> and then
  \<open>re.sub(r"\s+", " ", text)\<close>. Each replaces every maximal run of the characters of
  its class by one space. Reading the file and parsing it is left to the environment
  (\<open>read_text\<close>, which may fail). On the bytes of the text every byte outside ASCII is in
  the first class; a Unicode space would be in the second one, and the two substitutions
  together give the same text either way.
\<close>

definition is_alnum :: "char \<Rightarrow> bool" where
  "is_alnum c =
     (let n = (of_char c :: nat)
      in (48 \<le> n \<and> n \<le> 57) \<or> (65 \<le> n \<and> n \<le> 90) \<or> (97 \<le> n \<and> n \<le> 122))"

definition is_space :: "char \<Rightarrow> bool" where
  "is_space c = (let n = (of_char c :: nat) in (9 \<le> n \<and> n \<le> 13) \<or> (28 \<le> n \<and> n \<le> 32))"

fun sub_runs :: "(char \<Rightarrow> bool) \<Rightarrow> bool \<Rightarrow> string \<Rightarrow> string" where
  "sub_runs cls in_run [] = []"
| "sub_runs cls in_run (c # cs) =
     (if cls c then (if in_run then sub_runs cls True cs else CHR '' '' # sub_runs cls True cs)
      else c # sub_runs cls False cs)"

definition get_xml :: "(string \<Rightarrow> error + string) \<Rightarrow> string \<Rightarrow> error + string" where
  "get_xml read_text filepath =
     (case read_text filepath of
        Inl err \<Rightarrow> Inl err
      | Inr text \<Rightarrow>
          let clean_columbia_text = sub_runs (\<lambda>c. \<not> is_alnum c \<and> \<not> is_space c) False text;
              clean_columbia_text = sub_runs is_space False clean_columbia_text
          in Inr clean_columbia_text)"

text \<open>
  An opinion as \<open>values_list("id", "type", "html_columbia", "local_path")\<close> gives it.
\<close>

record opinion =
  op_id :: int
  op_type :: string
  html_columbia :: string
  local_path :: string

text \<open>
  The inner loop of \<open>match_text\<close>: the index of the first n-gram whose phrase
  \<open>count\<close>s exactly once in the reference text, where the loop breaks.
\<close>

fun first_unique :: "string \<Rightarrow> string list list \<Rightarrow> int option" where
  "first_unique columbia_words [] = None"
| "first_unique columbia_words (word_group # rest) =
     (let phrase = join_words word_group
      in if py_count columbia_words phrase = 1 then Some (py_find columbia_words phrase)
         else first_unique columbia_words rest)"

definition match_index :: "string \<Rightarrow> string list \<Rightarrow> int" where
  "match_index columbia_words words =
     (case first_unique columbia_words (generate_ngrams words) of
        None \<Rightarrow> int (length columbia_words)
      | Some i \<Rightarrow> i)"

text \<open>
  \<open>match_text\<close>. \<open>opinions[0]\<close> raises \<open>IndexError\<close> on an empty list. The words of
  an opinion are \<open>re.findall(r"\b\w+\b", BeautifulSoup(opinion[2]).text)\<close>; parsing and
  tokenising are the environment's \<open>words_of\<close>. \<open>sorted\<close> is stable, as \<open>sort_key\<close> is.
\<close>

definition match_text ::
  "(string \<Rightarrow> error + string) \<Rightarrow> (string \<Rightarrow> string list) \<Rightarrow> opinion list \<Rightarrow> string
     \<Rightarrow> error + (int \<times> string \<times> int) list" where
  "match_text read_text words_of opinions xml_dir =
     (if opinions = [] then Inl IndexError
      else
        let filepath = py_replace (local_path (hd opinions))
                         ''/home/mlissner/columbia/opinions'' xml_dir
        in (case get_xml read_text filepath of
              Inl err \<Rightarrow> Inl err
            | Inr columbia_words \<Rightarrow>
                let matches = map (\<lambda>op. (op_id op, op_type op,
                                     match_index columbia_words (words_of (html_columbia op))))
                                opinions
                in Inr (sort_key (\<lambda>(i, t, m). m) matches)))"

text \<open>An example: a reference file and two opinions of its cluster.\<close>

definition example_read_text :: "string \<Rightarrow> error + string" where
  "example_read_text filepath =
     (if filepath = ''/opt/columbia/x.xml'' then Inr ''the quick, brown fox: the''
      else Inl OSError)"

definition example_words_of :: "string \<Rightarrow> string list" where
  "example_words_of html =
     (if html = ''<p>quick brown</p>'' then [''quick'', ''brown''] else [''the'', ''cat''])"

definition example_opinions :: "opinion list" where
  "example_opinions =
     [\<lparr>op_id = 1, op_type = ''040dissent'', html_columbia = ''<p>the cat</p>'',
       local_path = ''/home/mlissner/columbia/opinions/x.xml''\<rparr>,
      \<lparr>op_id = 2, op_type = ''020lead'', html_columbia = ''<p>quick brown</p>'',
       local_path = ''/home/mlissner/columbia/opinions/x.xml''\<rparr>]"

section \<open>lib/middleware: maintenance mode\<close>

record settings =
  MAINTENANCE_MODE_ENABLED :: bool
  MAINTENANCE_MODE_ALLOW_STAFF :: bool

record account =
  is_staff :: bool

text \<open>
  A request may have no \<open>user\<close> attribute (\<open>hasattr(request, "user")\<close>). A response
  keeps its status, the template it was rendered from with its context, and whether
  \<open>add_never_cache_headers\<close> has set the headers that forbid caching.
\<close>

record request =
  path :: string
  user :: "account option"

record response =
  status_code :: nat
  template_name :: string
  template_context :: "(string \<times> bool) list"
  never_cache :: bool

definition SERVICE_UNAVAILABLE :: nat where
  "SERVICE_UNAVAILABLE = 503"

definition render :: "request \<Rightarrow> string \<Rightarrow> (string \<times> bool) list \<Rightarrow> nat \<Rightarrow> response" where
  "render req name ctx status =
     \<lparr>status_code = status, template_name = name, template_context = ctx, never_cache = False\<rparr>"

definition add_never_cache_headers :: "response \<Rightarrow> response" where
  "add_never_cache_headers r = r\<lparr>never_cache := True\<rparr>"

record middleware =
  get_response :: "request \<Rightarrow> response"

text \<open>\<open>MaintenanceModeMiddleware.__init__\<close> and \<open>__call__\<close>.\<close>

definition middleware_init :: "settings \<Rightarrow> (request \<Rightarrow> response) \<Rightarrow> error + middleware" where
  "middleware_init s get_resp =
     (if \<not> MAINTENANCE_MODE_ENABLED s then Inl MiddlewareNotUsed
      else Inr \<lparr>get_response = get_resp\<rparr>)"

definition middleware_call :: "settings \<Rightarrow> middleware \<Rightarrow> request \<Rightarrow> response" where
  "middleware_call s self req =
     (let resp = get_response self req;
          r = add_never_cache_headers
                (render req ''maintenance.html'' [(''private'', True)] SERVICE_UNAVAILABLE)
      in case user req of
           Some u \<Rightarrow> if MAINTENANCE_MODE_ALLOW_STAFF s \<and> is_staff u then resp else r
         | None \<Rightarrow> r)"

text \<open>
  The framework builds the chain once: a middleware whose construction raises
  \<open>MiddlewareNotUsed\<close> is left out, and requests go to the handler it would have
  wrapped.
\<close>

definition load_middleware :: "settings \<Rightarrow> (request \<Rightarrow> response) \<Rightarrow> error + (request \<Rightarrow> response)" where
  "load_middleware s handler =
     (case middleware_init s handler of
        Inl MiddlewareNotUsed \<Rightarrow> Inr handler
      | Inl err \<Rightarrow> Inl err
      | Inr mw \<Rightarrow> Inr (middleware_call s mw))"

section \<open>Properties\<close>

lemma batches_Nil [simp]: "batches n [] = []"
  by (simp add: batches.simps)

lemma batches_step:
  "0 < n \<Longrightarrow> xs \<noteq> [] \<Longrightarrow> batches n xs = take n xs # batches n (drop n xs)"
  by (subst batches.simps) simp

lemma concat_batches: "0 < n \<Longrightarrow> concat (batches n xs) = xs"
proof (induction n xs rule: batches.induct)
  case (1 n xs)
  show ?case
  proof (cases "xs = []")
    case True
    then show ?thesis by simp
  next
    case False
    with 1 show ?thesis by (simp add: batches_step)
  qed
qed

lemma length_batches: "0 < n \<Longrightarrow> length (batches n xs) = (length xs + n - 1) div n"
proof (induction n xs rule: batches.induct)
  case (1 n xs)
  show ?case
  proof (cases "xs = []")
    case True
    with 1 show ?thesis by simp
  next
    case False
    note ne = False
    show ?thesis
    proof (cases "length xs \<le> n")
      case True
      with ne 1 have "batches n xs = [xs]"
        by (simp add: batches_step)
      moreover from True ne 1 have "(length xs + n - 1) div n = 1"
        by (cases xs) (auto simp: div_eq_dividend_iff Suc_le_eq)
      ultimately show ?thesis by simp
    next
      case False
      then have "(length xs + n - 1) = (length xs - n + n - 1) + n" by simp
      then have "(length xs + n - 1) div n = Suc ((length xs - n + n - 1) div n)"
        using 1(2) by (metis div_add_self2 less_numeral_extra(3) Suc_eq_plus1)
      with ne 1 show ?thesis by (simp add: batches_step)
    qed
  qed
qed

lemma batches_groups:
  "0 < n \<Longrightarrow> g \<in> set (batches n xs) \<Longrightarrow> g \<noteq> [] \<and> length g \<le> n"
proof (induction n xs rule: batches.induct)
  case (1 n xs)
  show ?case
  proof (cases "xs = []")
    case True
    with 1 show ?thesis by simp
  next
    case False
    with 1 show ?thesis by (auto simp: batches_step)
  qed
qed

lemma batches_full_groups:
  "0 < n \<Longrightarrow> i + 1 < length (batches n xs) \<Longrightarrow> length (batches n xs ! i) = n"
proof (induction n xs arbitrary: i rule: batches.induct)
  case (1 n xs)
  show ?case
  proof (cases "xs = []")
    case True
    with 1 show ?thesis by simp
  next
    case False
    note ne = False
    from ne 1(2) have step: "batches n xs = take n xs # batches n (drop n xs)"
      by (simp add: batches_step)
    show ?thesis
    proof (cases i)
      case 0
      from 1(3) step have "batches n (drop n xs) \<noteq> []" by auto
      then have "drop n xs \<noteq> []" by auto
      then have "n < length xs" by simp
      with 0 step show ?thesis by simp
    next
      case (Suc j)
      with 1(3) step have "j + 1 < length (batches n (drop n xs))" by simp
      with 1(1) ne 1(2) have "length (batches n (drop n xs) ! j) = n" by simp
      with Suc step show ?thesis by simp
    qed
  qed
qed

lemma batches_nonempty: "0 < n \<Longrightarrow> xs \<noteq> [] \<Longrightarrow> batches n xs \<noteq> []"
  by (simp add: batches_step)

lemma sorted_batches: "0 < n \<Longrightarrow> sorted xs \<Longrightarrow> g \<in> set (batches n xs) \<Longrightarrow> sorted g"
proof (induction n xs rule: batches.induct)
  case (1 n xs)
  show ?case
  proof (cases "xs = []")
    case True
    with 1 show ?thesis by simp
  next
    case False
    with 1 show ?thesis by (auto simp: batches_step sorted_wrt_take sorted_wrt_drop)
  qed
qed

lemma sorted_hd_Min: "sorted g \<Longrightarrow> g \<noteq> [] \<Longrightarrow> hd g = Min (set g)"
  by (cases g) (auto simp: Min_insert2 intro!: Min_eqI [symmetric])

lemma sorted_last_Max: "sorted g \<Longrightarrow> g \<noteq> [] \<Longrightarrow> last g = Max (set g)"
  by (induction g) (auto simp: max_def intro: Max_insert2 [symmetric] order_antisym)

lemma ceiling_nat_div:
  assumes "0 < M"
  shows "\<lceil>real N / real M\<rceil> = int ((N + M - 1) div M)"
proof (rule ceiling_unique)
  let ?q = "(N + M - 1) div M"
  have le: "?q * M \<le> N + M - 1" by simp
  have lt: "N + M - 1 < ?q * M + M"
    using assms dividend_less_div_times [of M "N + M - 1"] by (simp add: ac_simps)
  from le assms have "?q * M < N + M" by linarith
  then have "real ?q * real M < real N + real M"
    by (metis of_nat_add of_nat_less_iff of_nat_mult)
  then show "of_int (int ?q) - 1 < real N / real M"
    using assms by (simp add: field_simps)
  from lt assms have "N \<le> ?q * M" by linarith
  then have "real N \<le> real ?q * real M"
    by (metis of_nat_le_iff of_nat_mult)
  then show "real N / real M \<le> of_int (int ?q)"
    using assms by (simp add: field_simps)
qed

subsection \<open>C8: the n-gram generator\<close>

text \<open>
  Claim C8. For every word list \<open>w\<close>, \<open>generate_ngrams\<close> returns the single words when
  \<open>len(w) \<le> 5\<close>, the \<open>len(w) - 1\<close> adjacent bigrams when \<open>6 \<le> len(w) \<le> 24\<close>, and the
  \<open>len(w) - 4\<close> adjacent 5-grams when \<open>len(w) \<ge> 25\<close>. The \<open>i\<close>-th n-gram starts at word
  \<open>i\<close> and holds that word and the ones right after it.
\<close>

theorem generate_ngrams_by_length:
  "(length w \<le> 5 \<longrightarrow> generate_ngrams w = map (\<lambda>x. [x]) w)
   \<and> (6 \<le> length w \<and> length w \<le> 24 \<longrightarrow>
        length (generate_ngrams w) = length w - 1
        \<and> (\<forall>i < length w - 1. generate_ngrams w ! i = [w ! i, w ! (i + 1)]))
   \<and> (25 \<le> length w \<longrightarrow>
        length (generate_ngrams w) = length w - 4
        \<and> (\<forall>i < length w - 4. generate_ngrams w ! i =
              [w ! i, w ! (i + 1), w ! (i + 2), w ! (i + 3), w ! (i + 4)]))"
proof (intro conjI impI allI)
  assume "length w \<le> 5"
  then show "generate_ngrams w = map (\<lambda>x. [x]) w"
    by (simp add: generate_ngrams_def)
next
  assume "6 \<le> length w \<and> length w \<le> 24"
  then show "length (generate_ngrams w) = length w - 1"
    by (simp add: generate_ngrams_def)
next
  fix i
  assume len: "6 \<le> length w \<and> length w \<le> 24" and i: "i < length w - 1"
  then have "generate_ngrams w ! i = slice w i (i + 2)"
    by (simp add: generate_ngrams_def)
  also from i have "\<dots> = [w ! i, w ! (i + 1)]"
    by (simp add: slice_def take_Suc_conv_app_nth numeral_2_eq_2)
  finally show "generate_ngrams w ! i = [w ! i, w ! (i + 1)]" .
next
  assume "25 \<le> length w"
  then show "length (generate_ngrams w) = length w - 4"
    by (simp add: generate_ngrams_def)
next
  fix i
  assume len: "25 \<le> length w" and i: "i < length w - 4"
  then have "generate_ngrams w ! i = slice w i (i + 5)"
    by (simp add: generate_ngrams_def)
  also from i have "\<dots> = [w ! i, w ! (i + 1), w ! (i + 2), w ! (i + 3), w ! (i + 4)]"
    by (simp add: slice_def take_Suc_conv_app_nth eval_nat_numeral add.commute)
  finally show "generate_ngrams w ! i =
      [w ! i, w ! (i + 1), w ! (i + 2), w ! (i + 3), w ! (i + 4)]" .
qed

theorem generate_ngrams_by_length_witness:
  "generate_ngrams [1, 2, 3 :: nat] = [[1], [2], [3]]
   \<and> generate_ngrams [1, 2, 3, 4, 5, 6 :: nat] ! 4 = [5, 6]
   \<and> length (generate_ngrams [1, 2, 3, 4, 5, 6 :: nat]) = 5
   \<and> length (generate_ngrams (replicate 25 (0 :: nat))) = 21
   \<and> generate_ngrams (replicate 25 (0 :: nat)) ! 20 = [0, 0, 0, 0, 0]"
  using generate_ngrams_by_length [of "[1, 2, 3 :: nat]"]
    generate_ngrams_by_length [of "[1, 2, 3, 4, 5, 6 :: nat]"]
    generate_ngrams_by_length [of "replicate 25 (0 :: nat)"]
  by simp

subsection \<open>C3: partitioning a batch into sub-batches\<close>

text \<open>
  Claim C3. For a batch of \<open>N \<ge> 1\<close> identifiers and a sub-batch size \<open>M\<close> with
  \<open>1 \<le> M \<le> N\<close>, \<open>batched\<close> returns (it does not raise) exactly \<open>ceil(N / M)\<close> groups;
  every group but the last has \<open>M\<close> elements, the last has between 1 and \<open>M\<close>, and the
  groups concatenated in order are the batch.
\<close>

theorem batched_partition:
  assumes "length rows = N" and "1 \<le> N" and "1 \<le> M" and "M \<le> N"
  shows "\<exists>gs. batched rows (int M) = Inr gs
           \<and> int (length gs) = \<lceil>real N / real M\<rceil>
           \<and> (\<forall>i. i + 1 < length gs \<longrightarrow> length (gs ! i) = M)
           \<and> 1 \<le> length (last gs) \<and> length (last gs) \<le> M
           \<and> concat gs = rows"
proof -
  let ?gs = "batches M rows"
  from assms have M: "0 < M" and ne: "rows \<noteq> []" by auto
  have "batched rows (int M) = Inr ?gs"
    using M by (simp add: batched_def)
  moreover have "int (length ?gs) = \<lceil>real N / real M\<rceil>"
    using M assms(1) by (simp add: length_batches ceiling_nat_div)
  moreover have "\<forall>i. i + 1 < length ?gs \<longrightarrow> length (?gs ! i) = M"
    using M by (simp add: batches_full_groups)
  moreover have "1 \<le> length (last ?gs) \<and> length (last ?gs) \<le> M"
  proof -
    from M ne have "?gs \<noteq> []" by (rule batches_nonempty)
    then have "last ?gs \<in> set ?gs" by simp
    with M have "last ?gs \<noteq> [] \<and> length (last ?gs) \<le> M" by (rule batches_groups)
    then show ?thesis by (cases "last ?gs") auto
  qed
  moreover have "concat ?gs = rows"
    using M by (rule concat_batches)
  ultimately show ?thesis by blast
qed

theorem batched_partition_witness:
  "\<exists>gs. batched [10, 11, 12, 13, 14, 15, 16 :: int] 3 = Inr gs
      \<and> int (length gs) = \<lceil>real 7 / real 3\<rceil>
      \<and> (\<forall>i. i + 1 < length gs \<longrightarrow> length (gs ! i) = 3)
      \<and> 1 \<le> length (last gs) \<and> length (last gs) \<le> 3
      \<and> concat gs = [10, 11, 12, 13, 14, 15, 16]"
  using batched_partition [of "[10, 11, 12, 13, 14, 15, 16 :: int]" 7 3]
  by simp

subsection \<open>C2: manifest file names\<close>

text \<open>
  Claim C2. For every group of a manifest (a group that \<open>batched\<close> yields from a page
  of identifiers in ascending order, as \<open>ORDER BY id\<close> returns it), the file name is
  the single identifier when the group has one element, and the smallest identifier, an
  underscore and the largest identifier when it has more; a group is never empty. The
  group \<open>[42]\<close> gives \<open>"42"\<close>, and \<open>[42, 43, 44, 45, 46]\<close>, which is one group at
  sub-batch size 5, gives \<open>"42_46"\<close>.
\<close>

theorem file_name_of_group:
  "(\<forall>rows n gs g. sorted rows \<and> batched rows n = Inr gs \<and> g \<in> set gs \<longrightarrow>
      (length g = 1 \<or> length g > 1)
      \<and> (length g = 1 \<longrightarrow> (\<exists>i. g = [i] \<and> file_name g = Inr (py_str i)))
      \<and> (length g > 1 \<longrightarrow>
            file_name g = Inr (py_str (Min (set g)) @ ''_'' @ py_str (Max (set g)))))
   \<and> file_name [42] = Inr ''42''
   \<and> batched [42, 43, 44, 45, 46 :: int] 5 = Inr [[42, 43, 44, 45, 46]]
   \<and> file_name [42, 43, 44, 45, 46] = Inr ''42_46''"
proof (intro conjI allI impI)
  fix rows :: "int list" and n gs g
  assume a: "sorted rows \<and> batched rows n = Inr gs \<and> g \<in> set gs"
  then have n: "0 < nat n" and gs: "gs = batches (nat n) rows"
    by (auto simp: batched_def split: if_splits)
  from a n gs have ne: "g \<noteq> []" and sg: "sorted g"
    using batches_groups [of "nat n" g rows] sorted_batches [of "nat n" rows g] by auto
  from ne show "length g = 1 \<or> length g > 1"
    by (cases g) auto
  show "\<exists>i. g = [i] \<and> file_name g = Inr (py_str i)" if "length g = 1"
    using that by (cases g) (auto simp: file_name_def)
  show "file_name g = Inr (py_str (Min (set g)) @ ''_'' @ py_str (Max (set g)))"
    if "length g > 1"
    using that ne sg by (simp add: file_name_def sorted_hd_Min sorted_last_Max)
next
  show "file_name [42] = Inr ''42''"
    by (simp add: file_name_def py_str_def str_nat.simps digit_char_def)
  show "batched [42, 43, 44, 45, 46 :: int] 5 = Inr [[42, 43, 44, 45, 46]]"
    by (simp add: batched_def batches.simps)
  show "file_name [42, 43, 44, 45, 46] = Inr ''42_46''"
    by (simp add: file_name_def py_str_def str_nat.simps digit_char_def)
qed

theorem file_name_of_group_witness:
  "sorted [7, 8, 9 :: int] \<and> batched [7, 8, 9 :: int] 2 = Inr [[7, 8], [9]]
   \<and> file_name [7, 8] = Inr ''7_8'' \<and> file_name [9] = Inr ''9''"
proof -
  have b: "batched [7, 8, 9 :: int] 2 = Inr [[7, 8], [9]]"
    by (simp add: batched_def batches.simps)
  have s: "sorted [7, 8, 9 :: int]" by simp
  from file_name_of_group
  have g: "\<And>g. g \<in> set [[7, 8], [9 :: int]] \<Longrightarrow>
      (length g = 1 \<longrightarrow> (\<exists>i. g = [i] \<and> file_name g = Inr (py_str i)))
      \<and> (length g > 1 \<longrightarrow>
            file_name g = Inr (py_str (Min (set g)) @ ''_'' @ py_str (Max (set g))))"
    using s b by blast
  from g [of "[7, 8]"] have "file_name [7, 8] = Inr ''7_8''"
    by (simp add: py_str_def str_nat.simps digit_char_def)
  moreover from g [of "[9]"] have "file_name [9] = Inr ''9''"
    by (simp add: py_str_def str_nat.simps digit_char_def)
  ultimately show ?thesis using s b by simp
qed

subsection \<open>One iteration and the loop\<close>

lemma loop_body_Continue:
  assumes "loop_body e opts t lp c r = Continue lp' c' r' evs"
  shows "\<exists>q ps rows body n.
           fetch_page e opts lp = Inr (q, ps, rows) \<and> rows \<noteq> []
         \<and> manifest_body (bucket_name opts) rows (lambda_record_size opts) = Inr body
         \<and> lp' = RowPk (last rows) \<and> c' = c + 1
         \<and> r' = r\<lparr>last_pk := Some (last rows), next_iteration_counter := Some (c + 1),
                   records_processed := Some n\<rparr>
         \<and> evs = [SelectQuery q ps rows,
                  PutObject (object_key (SEARCH_TYPES e (record_type opts)) c)
                    (bucket_name opts) body,
                  HSetProgress (last rows) (c + 1) n]
         \<and> log_progress (int (length rows))
              (case records_processed r of None \<Rightarrow> 0 | Some n \<Rightarrow> n) t = Inr ()"
  using assms
  by (auto simp: loop_body_def Let_def split: sum.splits prod.splits if_splits)

lemma loop_body_Stop:
  assumes "loop_body e opts t lp c r = Stop out r' evs"
  shows "(out = Finished \<and> r' = r
             \<and> (\<exists>q ps. fetch_page e opts lp = Inr (q, ps, []) \<and> evs = [SelectQuery q ps []]))
       \<or> (\<exists>err. out = Raised err \<and> r' = r
             \<and> (evs = [] \<or> (\<exists>q ps rows. fetch_page e opts lp = Inr (q, ps, rows)
                                \<and> evs = [SelectQuery q ps rows] \<and> rows \<noteq> [])))
       \<or> (\<exists>err q ps rows body n. out = Raised err
             \<and> r' = r\<lparr>last_pk := Some (last rows), next_iteration_counter := Some (c + 1),
                   records_processed := Some n\<rparr>
             \<and> fetch_page e opts lp = Inr (q, ps, rows) \<and> rows \<noteq> []
             \<and> manifest_body (bucket_name opts) rows (lambda_record_size opts) = Inr body
             \<and> evs = [SelectQuery q ps rows,
                  PutObject (object_key (SEARCH_TYPES e (record_type opts)) c)
                    (bucket_name opts) body,
                  HSetProgress (last rows) (c + 1) n])"
  using assms
  by (auto simp: loop_body_def Let_def split: sum.splits prod.splits if_splits)

lemma export_loop_Suc_cases:
  assumes "export_loop (Suc fuel) e opts t lp c r = (out, r', evs)"
  obtains (stop) "loop_body e opts t lp c r = Stop out r' evs"
  | (continue) lp1 c1 r1 evs1 evs2 where
      "loop_body e opts t lp c r = Continue lp1 c1 r1 evs1"
      "export_loop fuel e opts t lp1 c1 r1 = (out, r', evs2)"
      "evs = evs1 @ evs2"
  using assms by (auto split: step.splits prod.splits)

lemma export_loop_delete:
  "export_loop fuel e opts t lp c r = (out, r', evs) \<Longrightarrow>
     Delete \<notin> set evs
     \<and> (out = Finished \<longrightarrow> (\<exists>pre q ps. evs = pre @ [SelectQuery q ps []]))
     \<and> total_records r' = total_records r"
proof (induction fuel arbitrary: lp c r out r' evs)
  case 0
  then show ?case by auto
next
  case (Suc fuel)
  from Suc.prems show ?case
  proof (cases rule: export_loop_Suc_cases)
    case stop
    from loop_body_Stop [OF stop] show ?thesis by auto
  next
    case (continue lp1 c1 r1 evs1 evs2)
    from loop_body_Continue [OF continue(1)]
    have a: "Delete \<notin> set evs1" and b: "total_records r1 = total_records r" by auto
    from Suc.IH [OF continue(2)]
    have c: "Delete \<notin> set evs2"
      and d: "out = Finished \<longrightarrow> (\<exists>pre q ps. evs2 = pre @ [SelectQuery q ps []])"
      and f: "total_records r' = total_records r1" by auto
    from d have "out = Finished \<longrightarrow> (\<exists>pre q ps. evs = pre @ [SelectQuery q ps []])"
      using continue(3) by (metis append.assoc)
    with a b c f continue(3) show ?thesis by auto
  qed
qed

lemma handle_cases:
  assumes "handle fuel e opts r = (out, r', evs)"
  obtains t r1 evs1 r2 evs2 where
    "export_loop fuel e opts t (cached_pk r)
       (case next_iteration_counter r of None \<Rightarrow> 0 | Some c \<Rightarrow> c) r1 = (out, r2, evs2)"
    "next_iteration_counter r1 = next_iteration_counter r"
    "last_pk r1 = last_pk r"
    "records_processed r1 = records_processed r"
    "\<exists>n. total_records r1 = Some n"
    "evs1 = [] \<or> (\<exists>n. evs1 = [CountQuery n, HSetTotal n])"
    "out = Finished \<Longrightarrow> r' = no_status \<and> evs = evs1 @ evs2 @ [Delete]"
    "out \<noteq> Finished \<Longrightarrow> r' = r2 \<and> evs = evs1 @ evs2"
    "t = (if (case total_records r of None \<Rightarrow> 0 | Some n \<Rightarrow> n) = 0
          then get_total_number_of_records (connections_at_count e (use_replica opts)) (record_type opts)
          else (case total_records r of None \<Rightarrow> 0 | Some n \<Rightarrow> n))"
    "r1 = (if (case total_records r of None \<Rightarrow> 0 | Some n \<Rightarrow> n) = 0
           then r\<lparr>total_records := Some (get_total_number_of_records
                      (connections_at_count e (use_replica opts)) (record_type opts))\<rparr>
           else r)"
    "evs1 = (if (case total_records r of None \<Rightarrow> 0 | Some n \<Rightarrow> n) = 0
             then [CountQuery (get_total_number_of_records
                      (connections_at_count e (use_replica opts)) (record_type opts)),
                   HSetTotal (get_total_number_of_records
                      (connections_at_count e (use_replica opts)) (record_type opts))]
             else [])"
proof -
  let ?ct = "case total_records r of None \<Rightarrow> 0 | Some n \<Rightarrow> n"
  let ?n = "get_total_number_of_records (connections_at_count e (use_replica opts)) (record_type opts)"
  let ?t = "if ?ct = 0 then ?n else ?ct"
  let ?r1 = "if ?ct = 0 then r\<lparr>total_records := Some ?n\<rparr> else r"
  let ?evs1 = "if ?ct = 0 then [CountQuery ?n, HSetTotal ?n] else []"
  let ?c = "case next_iteration_counter r of None \<Rightarrow> 0 | Some c \<Rightarrow> c"
  obtain o2 r2 evs2 where l: "export_loop fuel e opts ?t (cached_pk r) ?c ?r1 = (o2, r2, evs2)"
    by (cases "export_loop fuel e opts ?t (cached_pk r) ?c ?r1") auto
  have c1: "(case next_iteration_counter ?r1 of None \<Rightarrow> 0 | Some c \<Rightarrow> c) = ?c" by simp
  from assms l have h: "(case o2 of Finished \<Rightarrow> (Finished, no_status, ?evs1 @ evs2 @ [Delete])
        | _ \<Rightarrow> (o2, r2, ?evs1 @ evs2)) = (out, r', evs)"
    unfolding handle_def Let_def c1 by (auto split: outcome.splits)
  then have o: "o2 = out" by (cases o2) auto
  show thesis
  proof (rule that [where t = ?t and ?r1.0 = ?r1 and ?evs1.0 = ?evs1 and ?r2.0 = r2 and ?evs2.0 = evs2])
    show "export_loop fuel e opts ?t (cached_pk r) ?c ?r1 = (out, r2, evs2)" using l o by simp
    show "next_iteration_counter ?r1 = next_iteration_counter r" by simp
    show "last_pk ?r1 = last_pk r" by simp
    show "records_processed ?r1 = records_processed r" by simp
    show "\<exists>n. total_records ?r1 = Some n" by (cases "total_records r") auto
    show "?evs1 = [] \<or> (\<exists>n. ?evs1 = [CountQuery n, HSetTotal n])" by simp
    show "out = Finished \<Longrightarrow> r' = no_status \<and> evs = ?evs1 @ evs2 @ [Delete]"
      using h o by auto
    show "out \<noteq> Finished \<Longrightarrow> r' = r2 \<and> evs = ?evs1 @ evs2"
      using h o by (cases o2) auto
  qed (rule refl)+
qed

subsection \<open>C6: when the checkpoint is deleted\<close>

text \<open>
  Claim C6. In every run, whatever the fuel, the environment, the options and the
  checkpoint: if the checkpoint is deleted, then the run ended normally, the deletion
  is the last event, it happens once, and the event right before it is a page query
  that returned no row. A run that raised, or that is still in the loop, has not
  deleted the checkpoint and leaves a hash in the cache. A run that ended normally did
  delete it.
\<close>

theorem delete_only_after_empty_page:
  assumes "handle fuel e opts r = (out, r', evs)"
  shows "(Delete \<in> set evs \<longrightarrow>
            out = Finished
            \<and> (\<exists>pre q ps. evs = pre @ [SelectQuery q ps [], Delete] \<and> Delete \<notin> set pre))
       \<and> (out \<noteq> Finished \<longrightarrow> Delete \<notin> set evs \<and> r' \<noteq> no_status)
       \<and> (out = Finished \<longrightarrow> Delete \<in> set evs \<and> r' = no_status)"
  using assms
proof (cases rule: handle_cases)
  case (1 t r1 evs1 r2 evs2)
  from export_loop_delete [OF 1(1)]
  have nd: "Delete \<notin> set evs2"
    and fin: "out = Finished \<longrightarrow> (\<exists>pre q ps. evs2 = pre @ [SelectQuery q ps []])"
    and tot: "total_records r2 = total_records r1" by auto
  from 1(6) have nd1: "Delete \<notin> set evs1" by auto
  show ?thesis
  proof (cases "out = Finished")
    case True
    with fin obtain pre q ps where "evs2 = pre @ [SelectQuery q ps []]" by blast
    with 1(7) True nd have "evs = (evs1 @ pre) @ [SelectQuery q ps [], Delete]"
      and "Delete \<notin> set (evs1 @ pre)" and "r' = no_status" using nd1 by auto
    then have "\<exists>pre q ps. evs = pre @ [SelectQuery q ps [], Delete] \<and> Delete \<notin> set pre"
      and "Delete \<in> set evs" and "r' = no_status" by (blast, simp, simp)
    with True show ?thesis by simp
  next
    case False
    with 1(8) 1(5) tot nd nd1 show ?thesis by (auto simp: no_status_def)
  qed
qed

theorem delete_only_after_empty_page_witness:
  "handle 5 example_env (example_options ORAL_ARGUMENT) no_status
     = (Finished, no_status,
        [CountQuery 0, HSetTotal 0,
         SelectQuery \<lparr>from_table = audio_audio, id_greater = False\<rparr> [2] [], Delete])
   \<and> fst (handle 5 example_env (example_options OPINION) no_status) = Raised ClientError
   \<and> Delete \<notin> set (snd (snd (handle 5 example_env (example_options OPINION) no_status)))
   \<and> fst (snd (handle 5 example_env (example_options OPINION) no_status)) \<noteq> no_status"
proof -
  have a: "handle 5 example_env (example_options ORAL_ARGUMENT) no_status
     = (Finished, no_status,
        [CountQuery 0, HSetTotal 0,
         SelectQuery \<lparr>from_table = audio_audio, id_greater = False\<rparr> [2] [], Delete])"
    by code_simp
  have b: "fst (handle 5 example_env (example_options OPINION) no_status) = Raised ClientError"
    by code_simp
  obtain r' evs where c: "handle 5 example_env (example_options OPINION) no_status
      = (Raised ClientError, r', evs)"
    using b by (cases "handle 5 example_env (example_options OPINION) no_status") auto
  from delete_only_after_empty_page [OF a] delete_only_after_empty_page [OF c] a b c
  show ?thesis by simp
qed

subsection \<open>C5: an empty first page\<close>

text \<open>
  Claim C5. If the first page query of a run returns no row, the run ends normally
  with the checkpoint deleted (the last event), and uploads nothing: besides the page
  query and the deletion, its only events are the count query and the write of its
  result, when the total was not cached.
\<close>

theorem empty_first_page:
  assumes "fetch_page e opts (cached_pk r) = Inr (q, ps, [])"
  shows "\<exists>pre. handle (Suc fuel) e opts r
              = (Finished, no_status, pre @ [SelectQuery q ps [], Delete])
           \<and> (pre = [] \<or> (\<exists>n. pre = [CountQuery n, HSetTotal n]))
           \<and> uploads (pre @ [SelectQuery q ps [], Delete]) = []"
proof -
  have body: "loop_body e opts t (cached_pk r) c r1 = Stop Finished r1 [SelectQuery q ps []]"
    for t c r1
    using assms by (simp add: loop_body_def)
  show ?thesis
    by (cases "total_records r") (auto simp: handle_def Let_def body)
qed

theorem empty_first_page_witness:
  "fetch_page example_env (example_options ORAL_ARGUMENT) (cached_pk no_status)
     = Inr (\<lparr>from_table = audio_audio, id_greater = False\<rparr>, [2], [])
   \<and> (\<exists>pre. handle 1 example_env (example_options ORAL_ARGUMENT) no_status
          = (Finished, no_status,
             pre @ [SelectQuery \<lparr>from_table = audio_audio, id_greater = False\<rparr> [2] [], Delete])
        \<and> (pre = [] \<or> (\<exists>n. pre = [CountQuery n, HSetTotal n]))
        \<and> uploads (pre @ [SelectQuery \<lparr>from_table = audio_audio, id_greater = False\<rparr> [2] [],
                           Delete]) = [])"
proof -
  have f: "fetch_page example_env (example_options ORAL_ARGUMENT) (cached_pk no_status)
     = Inr (\<lparr>from_table = audio_audio, id_greater = False\<rparr>, [2], [])"
    by (simp add: fetch_page_def example_env_def example_options_def cached_pk_def no_status_def
        get_custom_query_def truthy_def cursor_execute_def)
  from empty_first_page [OF f, of 0] f show ?thesis by simp
qed

subsection \<open>The manifest text and the uploads of the loop\<close>

lemma pages_append [simp]: "pages (xs @ ys) = pages xs @ pages ys"
  by (induction xs rule: pages.induct) auto

lemma uploads_append [simp]: "uploads (xs @ ys) = uploads xs @ uploads ys"
  by (induction xs rule: uploads.induct) auto

lemma digit_char_in: "d < 10 \<Longrightarrow> digit_char d \<in> set ''0123456789''"
  unfolding digit_char_def by (rule nth_mem) simp

lemma str_nat_chars: "set (str_nat n) \<subseteq> set ''0123456789''"
proof (induction n rule: str_nat.induct)
  case (1 n)
  show ?case
  proof (cases "n < 10")
    case True
    have "str_nat n = [digit_char n]"
      using True by (subst str_nat.simps) simp
    with digit_char_in [OF True] show ?thesis by simp
  next
    case False
    with 1 have a: "set (str_nat (n div 10)) \<subseteq> set ''0123456789''" by simp
    have b: "digit_char (n mod 10) \<in> set ''0123456789''"
      by (rule digit_char_in) simp
    have "str_nat n = str_nat (n div 10) @ [digit_char (n mod 10)]"
      using False by (subst str_nat.simps) simp
    with a b show ?thesis by simp
  qed
qed

lemma plain_not_special: "plain_char c \<Longrightarrow> \<not> csv_special c"
  unfolding plain_char_def csv_special_def by auto

lemma py_str_plain: "c \<in> set (py_str i) \<Longrightarrow> plain_char c"
proof -
  assume c: "c \<in> set (py_str i)"
  have d: "x \<in> set ''0123456789'' \<Longrightarrow> plain_char x" for x
    unfolding plain_char_def by auto
  from c have "c = CHR ''-'' \<or> c \<in> set (str_nat (nat i)) \<or> c \<in> set (str_nat (nat (- i)))"
    by (auto simp: py_str_def split: if_splits)
  then show ?thesis
  proof (elim disjE)
    assume "c = CHR ''-''"
    then show ?thesis unfolding plain_char_def by simp
  next
    assume "c \<in> set (str_nat (nat i))"
    with str_nat_chars [of "nat i"] show ?thesis by (blast intro: d)
  next
    assume "c \<in> set (str_nat (nat (- i)))"
    with str_nat_chars [of "nat (- i)"] show ?thesis by (blast intro: d)
  qed
qed

lemma file_name_plain:
  assumes "file_name g = Inr f" and "c \<in> set f"
  shows "plain_char c"
proof -
  from assms have "c \<in> set (py_str (hd g)) \<or> c = CHR ''_'' \<or> c \<in> set (py_str (last g))"
    by (auto simp: file_name_def split: if_splits)
  then show ?thesis
    using py_str_plain [of c "hd g"] py_str_plain [of c "last g"]
    by (auto simp: plain_char_def)
qed

lemma csv_field_file_name: "file_name g = Inr f \<Longrightarrow> csv_field f = f"
  using file_name_plain [of g f] plain_not_special
  by (auto simp: csv_field_def list_ex_iff)

lemma write_rows_lines:
  "write_rows bucket gs = Inr body \<Longrightarrow>
     \<exists>names. map file_name gs = map Inr names
       \<and> body = concat (map (\<lambda>f. csv_field bucket @ '','' @ f @ [CHR 0x0D, CHR 0x0A]) names)"
proof (induction gs arbitrary: body)
  case Nil
  then show ?case by simp
next
  case (Cons g gs)
  from Cons.prems obtain f s where f: "file_name g = Inr f"
    and s: "write_rows bucket gs = Inr s" and body: "body = writerow [bucket, f] @ s"
    by (auto split: sum.splits)
  from Cons.IH [OF s] obtain names where n: "map file_name gs = map Inr names"
    and s': "s = concat (map (\<lambda>f. csv_field bucket @ '','' @ f @ [CHR 0x0D, CHR 0x0A]) names)"
    by blast
  have w: "writerow [bucket, f] = csv_field bucket @ '','' @ f @ [CHR 0x0D, CHR 0x0A]"
    using csv_field_file_name [OF f] by (simp add: writerow_def)
  have "map file_name (g # gs) = map Inr (f # names)"
    using f n by simp
  moreover have "body = concat (map (\<lambda>f. csv_field bucket @ '','' @ f @ [CHR 0x0D, CHR 0x0A])
      (f # names))"
    unfolding body w s' by simp
  ultimately show ?case by blast
qed

lemma manifest_body_lines:
  assumes "manifest_body bucket rows n = Inr body"
  shows "\<exists>gs names. batched rows n = Inr gs \<and> map file_name gs = map Inr names
       \<and> body = concat (map (\<lambda>f. csv_field bucket @ '','' @ f @ [CHR 0x0D, CHR 0x0A]) names)"
proof -
  from assms obtain gs where gs: "batched rows n = Inr gs" and w: "write_rows bucket gs = Inr body"
    by (auto simp: manifest_body_def split: sum.splits)
  from write_rows_lines [OF w] gs show ?thesis by blast
qed

lemma export_loop_uploads:
  "export_loop fuel e opts t lp c r = (out, r', evs) \<Longrightarrow>
     length (uploads evs) \<le> length (pages evs)
     \<and> (\<forall>j < length (uploads evs). \<exists>body.
           uploads evs ! j
             = (object_key (SEARCH_TYPES e (record_type opts)) (c + int j),
                bucket_name opts, body)
           \<and> manifest_body (bucket_name opts) (pages evs ! j) (lambda_record_size opts)
               = Inr body)"
proof (induction fuel arbitrary: lp c r out r' evs)
  case 0
  then show ?case by auto
next
  case (Suc fuel)
  from Suc.prems show ?case
  proof (cases rule: export_loop_Suc_cases)
    case stop
    from loop_body_Stop [OF stop] show ?thesis by auto
  next
    case (continue lp1 c1 r1 evs1 evs2)
    from loop_body_Continue [OF continue(1)]
    obtain q ps rows body n where
      m: "manifest_body (bucket_name opts) rows (lambda_record_size opts) = Inr body"
      and c1: "c1 = c + 1"
      and evs1: "evs1 = [SelectQuery q ps rows,
                  PutObject (object_key (SEARCH_TYPES e (record_type opts)) c)
                    (bucket_name opts) body,
                  HSetProgress (last rows) (c + 1) n]"
      by blast
    have u: "uploads evs = (object_key (SEARCH_TYPES e (record_type opts)) c,
                bucket_name opts, body) # uploads evs2"
      and p: "pages evs = rows # pages evs2"
      using continue(3) evs1 by simp_all
    note ih = Suc.IH [OF continue(2), unfolded c1]
    show ?thesis
    proof (intro conjI allI impI)
      show "length (uploads evs) \<le> length (pages evs)"
        using ih u p by simp
    next
      fix j
      assume j: "j < length (uploads evs)"
      show "\<exists>body.
           uploads evs ! j
             = (object_key (SEARCH_TYPES e (record_type opts)) (c + int j),
                bucket_name opts, body)
           \<and> manifest_body (bucket_name opts) (pages evs ! j) (lambda_record_size opts)
               = Inr body"
      proof (cases j)
        case 0
        with u p m show ?thesis by simp
      next
        case (Suc k)
        with j u have k: "k < length (uploads evs2)" by simp
        from ih k obtain b where
          "uploads evs2 ! k = (object_key (SEARCH_TYPES e (record_type opts)) (c + 1 + int k),
             bucket_name opts, b)"
          and "manifest_body (bucket_name opts) (pages evs2 ! k) (lambda_record_size opts) = Inr b"
          by blast
        moreover have "c + 1 + int k = c + int (Suc k)" by simp
        ultimately show ?thesis using Suc u p by simp
      qed
    qed
  qed
qed

subsection \<open>C4: the objects uploaded\<close>

text \<open>
  Claim C4, as the code has it. In every run, each upload follows a page query; the
  \<open>j\<close>-th object uploaded (from 0) has the key \<open>{record_type}_filelist_{k}.csv\<close>, where
  \<open>k\<close> is the checkpoint's \<open>next_iteration_counter\<close> (0 when it is not set) plus \<open>j\<close>;
  its bucket is the operator's; and its body is CSV text with exactly one row per
  sub-batch of the \<open>j\<close>-th page, in order: the bucket name (quoted by the CSV rule when
  it needs it), a comma, the sub-batch's file name, CR LF. There is no header row: the
  body starts with the row of the first sub-batch.
\<close>

theorem uploads_of_run:
  assumes "handle fuel e opts r = (out, r', evs)"
  shows "length (uploads evs) \<le> length (pages evs)
     \<and> (\<forall>j < length (uploads evs). \<exists>gs names.
           batched (pages evs ! j) (lambda_record_size opts) = Inr gs
         \<and> map file_name gs = map Inr names
         \<and> uploads evs ! j
             = (SEARCH_TYPES e (record_type opts) @ ''_filelist_''
                  @ py_str ((case next_iteration_counter r of None \<Rightarrow> 0 | Some c \<Rightarrow> c) + int j)
                  @ ''.csv'',
                bucket_name opts,
                concat (map (\<lambda>f. csv_field (bucket_name opts) @ '','' @ f @ [CHR 0x0D, CHR 0x0A])
                          names)))"
  using assms
proof (cases rule: handle_cases)
  case (1 t r1 evs1 r2 evs2)
  let ?c = "case next_iteration_counter r of None \<Rightarrow> 0 | Some c \<Rightarrow> c"
  from 1(6) have e1: "uploads evs1 = []" "pages evs1 = []" by auto
  have "evs = evs1 @ evs2 @ [Delete] \<or> evs = evs1 @ evs2"
    using 1(7) 1(8) by (cases "out = Finished") auto
  then have u: "uploads evs = uploads evs2" and p: "pages evs = pages evs2"
    using e1 by auto
  note l = export_loop_uploads [OF 1(1), folded u p]
  show ?thesis
  proof (intro conjI allI impI)
    show "length (uploads evs) \<le> length (pages evs)" using l by simp
  next
    fix j
    assume "j < length (uploads evs)"
    with l obtain body where
      a: "uploads evs ! j = (object_key (SEARCH_TYPES e (record_type opts)) (?c + int j),
            bucket_name opts, body)"
      and b: "manifest_body (bucket_name opts) (pages evs ! j) (lambda_record_size opts) = Inr body"
      by blast
    from manifest_body_lines [OF b] obtain gs names where
      "batched (pages evs ! j) (lambda_record_size opts) = Inr gs"
      "map file_name gs = map Inr names"
      "body = concat (map (\<lambda>f. csv_field (bucket_name opts) @ '','' @ f @ [CHR 0x0D, CHR 0x0A])
                names)"
      by blast
    with a show "\<exists>gs names.
           batched (pages evs ! j) (lambda_record_size opts) = Inr gs
         \<and> map file_name gs = map Inr names
         \<and> uploads evs ! j
             = (SEARCH_TYPES e (record_type opts) @ ''_filelist_''
                  @ py_str (?c + int j) @ ''.csv'',
                bucket_name opts,
                concat (map (\<lambda>f. csv_field (bucket_name opts) @ '','' @ f @ [CHR 0x0D, CHR 0x0A])
                          names))"
      unfolding object_key_def by blast
  qed
qed

theorem uploads_of_run_witness:
  "handle 2 example_env (example_options OPINION) no_status
     = (OutOfFuel,
        \<lparr>last_pk = Some 5, total_records = Some 5, next_iteration_counter = Some 2,
         records_processed = Some 4\<rparr>,
        [CountQuery 5, HSetTotal 5,
         SelectQuery \<lparr>from_table = search_opinion, id_greater = False\<rparr> [2] [1, 2],
         PutObject ''o_filelist_0.csv'' ''bucket'' (''bucket,1_2'' @ [CHR 0x0D, CHR 0x0A]),
         HSetProgress 2 1 2,
         SelectQuery \<lparr>from_table = search_opinion, id_greater = True\<rparr> [2, 2] [3, 5],
         PutObject ''o_filelist_1.csv'' ''bucket'' (''bucket,3_5'' @ [CHR 0x0D, CHR 0x0A]),
         HSetProgress 5 2 4])
   \<and> (\<exists>gs names. batched [3, 5] 2 = Inr gs \<and> map file_name gs = map Inr names
        \<and> (''o_filelist_1.csv'', ''bucket'', ''bucket,3_5'' @ [CHR 0x0D, CHR 0x0A])
            = (''o'' @ ''_filelist_'' @ py_str (0 + int 1) @ ''.csv'', ''bucket'',
               concat (map (\<lambda>f. csv_field ''bucket'' @ '','' @ f @ [CHR 0x0D, CHR 0x0A]) names)))"
proof -
  have h: "handle 2 example_env (example_options OPINION) no_status
     = (OutOfFuel,
        \<lparr>last_pk = Some 5, total_records = Some 5, next_iteration_counter = Some 2,
         records_processed = Some 4\<rparr>,
        [CountQuery 5, HSetTotal 5,
         SelectQuery \<lparr>from_table = search_opinion, id_greater = False\<rparr> [2] [1, 2],
         PutObject ''o_filelist_0.csv'' ''bucket'' (''bucket,1_2'' @ [CHR 0x0D, CHR 0x0A]),
         HSetProgress 2 1 2,
         SelectQuery \<lparr>from_table = search_opinion, id_greater = True\<rparr> [2, 2] [3, 5],
         PutObject ''o_filelist_1.csv'' ''bucket'' (''bucket,3_5'' @ [CHR 0x0D, CHR 0x0A]),
         HSetProgress 5 2 4])"
    by code_simp
  from uploads_of_run [OF h] have "\<forall>j < 2. \<exists>gs names.
       batched ([[1, 2], [3, 5]] ! j) 2 = Inr gs \<and> map file_name gs = map Inr names
     \<and> [(''o_filelist_0.csv'', ''bucket'', ''bucket,1_2'' @ [CHR 0x0D, CHR 0x0A]),
         (''o_filelist_1.csv'', ''bucket'', ''bucket,3_5'' @ [CHR 0x0D, CHR 0x0A])] ! j
         = (''o'' @ ''_filelist_'' @ py_str (0 + int j) @ ''.csv'', ''bucket'',
            concat (map (\<lambda>f. csv_field ''bucket'' @ '','' @ f @ [CHR 0x0D, CHR 0x0A]) names))"
    by (simp add: example_env_def example_options_def no_status_def)
  then have "\<exists>gs names.
       batched ([[1, 2], [3, 5]] ! 1) 2 = Inr gs \<and> map file_name gs = map Inr names
     \<and> [(''o_filelist_0.csv'', ''bucket'', ''bucket,1_2'' @ [CHR 0x0D, CHR 0x0A]),
         (''o_filelist_1.csv'', ''bucket'', ''bucket,3_5'' @ [CHR 0x0D, CHR 0x0A])] ! 1
         = (''o'' @ ''_filelist_'' @ py_str (0 + int 1) @ ''.csv'', ''bucket'',
            concat (map (\<lambda>f. csv_field ''bucket'' @ '','' @ f @ [CHR 0x0D, CHR 0x0A]) names))"
    by (rule allE [where x = 1]) simp
  with h show ?thesis by simp
qed

text \<open>
  The claim as the specification words it asks for a header row \<open>bucket,file_name\<close> at
  the start of the body. The first upload of a run over the example is the single row
  \<open>bucket,1_2\<close>.
\<close>

theorem upload_has_no_header_counterexample:
  "uploads (snd (snd (handle 1 example_env (example_options OPINION) no_status)))
     = [(''o_filelist_0.csv'', ''bucket'', ''bucket,1_2'' @ [CHR 0x0D, CHR 0x0A])]
   \<and> take 16 (''bucket,1_2'' @ [CHR 0x0D, CHR 0x0A]) \<noteq> ''bucket,file_name''"
  by code_simp

subsection \<open>The table a query reads\<close>

lemma from_table_query: "from_table (fst (get_custom_query type lp)) = table_of type"
  by (cases type) (simp_all add: get_custom_query_def table_of_def Let_def)

subsection \<open>The total is only read by the progress line\<close>

lemma log_progress_nonzero:
  assumes "t1 \<noteq> 0" "\<not> float_overflow t1" "t2 \<noteq> 0" "\<not> float_overflow t2"
  shows "log_progress rc p t1 = log_progress rc p t2"
  using assms by (simp add: log_progress_def)

lemma loop_body_total:
  assumes "t1 \<noteq> 0" "\<not> float_overflow t1" "t2 \<noteq> 0" "\<not> float_overflow t2"
  shows "loop_body e opts t2 lp c (r\<lparr>total_records := x\<rparr>)
           = (case loop_body e opts t1 lp c r of
                Stop out r' evs \<Rightarrow> Stop out (r'\<lparr>total_records := x\<rparr>) evs
              | Continue lp' c' r' evs \<Rightarrow> Continue lp' c' (r'\<lparr>total_records := x\<rparr>) evs)"
proof (cases "fetch_page e opts lp")
  case (Inl err)
  then show ?thesis by (simp add: loop_body_def)
next
  case (Inr res)
  obtain q ps rows where res: "res = (q, ps, rows)" by (cases res) auto
  have l: "log_progress rc p t2 = log_progress rc p t1" for rc p
    by (rule log_progress_nonzero [OF assms(3,4,1,2)])
  show ?thesis
    using Inr res
    by (simp add: loop_body_def Let_def l split: sum.splits)
qed

lemma export_loop_total:
  assumes "t1 \<noteq> 0" "\<not> float_overflow t1" "t2 \<noteq> 0" "\<not> float_overflow t2"
  shows "export_loop fuel e opts t2 lp c (r\<lparr>total_records := x\<rparr>)
           = (case export_loop fuel e opts t1 lp c r of
                (out, r', evs) \<Rightarrow> (out, r'\<lparr>total_records := x\<rparr>, evs))"
proof (induction fuel arbitrary: lp c r)
  case 0
  show ?case by simp
next
  case (Suc fuel)
  show ?case
    by (simp add: loop_body_total [OF assms] Suc.IH split: step.splits prod.splits)
qed

lemma export_loop_no_total_events:
  "export_loop fuel e opts t lp c r = (out, r', evs) \<Longrightarrow>
     (\<forall>n. CountQuery n \<notin> set evs) \<and> (\<forall>n. HSetTotal n \<notin> set evs)"
proof (induction fuel arbitrary: lp c r out r' evs)
  case 0
  then show ?case by auto
next
  case (Suc fuel)
  from Suc.prems show ?case
  proof (cases rule: export_loop_Suc_cases)
    case stop
    from loop_body_Stop [OF stop] show ?thesis by auto
  next
    case (continue lp1 c1 r1 evs1 evs2)
    from loop_body_Continue [OF continue(1)]
    have "(\<forall>n. CountQuery n \<notin> set evs1) \<and> (\<forall>n. HSetTotal n \<notin> set evs1)" by auto
    with Suc.IH [OF continue(2)] continue(3) show ?thesis by auto
  qed
qed

lemma handle_total_events:
  assumes "handle fuel e opts r = (out, r', evs)"
  shows "((\<exists>n. CountQuery n \<in> set evs) \<longleftrightarrow> (total_records r = None \<or> total_records r = Some 0))
       \<and> ((\<exists>n. HSetTotal n \<in> set evs) \<longleftrightarrow> (total_records r = None \<or> total_records r = Some 0))
       \<and> (out \<noteq> Finished \<longrightarrow> total_records r' = Some (total_in_use e opts (total_records r)))"
  using assms
proof (cases rule: handle_cases)
  case (1 t r1 evs1 r2 evs2)
  from export_loop_no_total_events [OF 1(1)]
  have n2: "\<forall>n. CountQuery n \<notin> set evs2" "\<forall>n. HSetTotal n \<notin> set evs2" by auto
  from export_loop_delete [OF 1(1)] have tot: "total_records r2 = total_records r1" by simp
  have z: "((case total_records r of None \<Rightarrow> 0 | Some n \<Rightarrow> n) = 0)
      \<longleftrightarrow> (total_records r = None \<or> total_records r = Some 0)"
    by (cases "total_records r") auto
  have evs: "set evs = set evs1 \<union> set evs2 \<union> (if out = Finished then {Delete} else {})"
    using 1(7) 1(8) by (cases "out = Finished") auto
  have a: "(\<exists>n. CountQuery n \<in> set evs) \<longleftrightarrow> (total_records r = None \<or> total_records r = Some 0)"
    unfolding evs using n2 1(11) z by auto
  have b: "(\<exists>n. HSetTotal n \<in> set evs) \<longleftrightarrow> (total_records r = None \<or> total_records r = Some 0)"
    unfolding evs using n2 1(11) z by auto
  have c: "out \<noteq> Finished \<longrightarrow> total_records r' = Some (total_in_use e opts (total_records r))"
    using 1(8) tot 1(10) z by (cases "total_records r") (auto simp: total_in_use_def)
  from a b c show ?thesis by blast
qed

lemma handle_total_independent:
  assumes A: "handle fuel e opts r = (out, r', evs)"
    and B: "handle fuel e opts (r\<lparr>total_records := t\<rparr>) = (out2, r2, evs2)"
    and sa: "total_in_use e opts (total_records r) \<noteq> 0"
            "\<not> float_overflow (total_in_use e opts (total_records r))"
    and sb: "total_in_use e opts t \<noteq> 0" "\<not> float_overflow (total_in_use e opts t)"
  shows "out2 = out \<and> uploads evs2 = uploads evs \<and> pages evs2 = pages evs
       \<and> r2\<lparr>total_records := None\<rparr> = r'\<lparr>total_records := None\<rparr>"
  using A
proof (cases rule: handle_cases)
  case a: (1 ta r1a evs1a r2a evs2a)
  from B show ?thesis
  proof (cases rule: handle_cases)
    case b: (1 tb r1b evs1b r2b evs2b)
    have ta: "ta = total_in_use e opts (total_records r)"
      unfolding a(9) total_in_use_def by simp
    have tb: "tb = total_in_use e opts t"
      unfolding b(9) total_in_use_def by simp
    have r1b: "r1b = r1a\<lparr>total_records := total_records r1b\<rparr>"
      unfolding a(10) b(10) by simp
    have lp: "cached_pk (r\<lparr>total_records := t\<rparr>) = cached_pk r"
      by (simp add: cached_pk_def)
    let ?c = "case next_iteration_counter r of None \<Rightarrow> 0 | Some c \<Rightarrow> c"
    from b(1) have "export_loop fuel e opts tb (cached_pk r) ?c
        (r1a\<lparr>total_records := total_records r1b\<rparr>) = (out2, r2b, evs2b)"
      unfolding lp using r1b by simp
    then have eq: "out2 = out" "r2b = r2a\<lparr>total_records := total_records r1b\<rparr>" "evs2b = evs2a"
      unfolding export_loop_total [OF sa [folded ta] sb [folded tb]] a(1) by simp_all
    have e1a: "uploads evs1a = []" "pages evs1a = []" using a(6) by auto
    have e1b: "uploads evs1b = []" "pages evs1b = []" using b(6) by auto
    show ?thesis
    proof (cases "out = Finished")
      case True
      with a(7) b(7) eq e1a e1b show ?thesis by simp
    next
      case False
      with a(8) b(8) eq e1a e1b show ?thesis by simp
    qed
  qed
qed

subsection \<open>C7: the cached total\<close>

text \<open>
  Claim C7, as the code has it. The count query is executed exactly when the checkpoint
  has no \<open>total_records\<close> value or the value is 0 (\<open>int(... or 0)\<close> followed by
  \<open>if not total_number_of_records\<close> reads a cached 0 as missing). A cached non-zero
  value is never written again by the run, and is still in the checkpoint of a run that
  did not end by deleting it. Two runs that differ only in the cached \<open>total_records\<close>,
  each working with a total that is not 0 and that converts to a float, end the same
  way, upload the same objects, and leave the same checkpoint apart from
  \<open>total_records\<close>.
\<close>

theorem total_records_only_for_progress:
  assumes "handle fuel e opts r = (out, r', evs)"
  shows "((\<exists>n. CountQuery n \<in> set evs)
            \<longleftrightarrow> (total_records r = None \<or> total_records r = Some 0))
       \<and> (\<forall>n. total_records r = Some n \<and> n \<noteq> 0 \<longrightarrow>
             (\<forall>m. HSetTotal m \<notin> set evs) \<and> (out \<noteq> Finished \<longrightarrow> total_records r' = Some n))
       \<and> (\<forall>t out2 r2 evs2.
             handle fuel e opts (r\<lparr>total_records := t\<rparr>) = (out2, r2, evs2)
             \<and> total_in_use e opts (total_records r) \<noteq> 0
             \<and> \<not> float_overflow (total_in_use e opts (total_records r))
             \<and> total_in_use e opts t \<noteq> 0
             \<and> \<not> float_overflow (total_in_use e opts t)
             \<longrightarrow> out2 = out \<and> uploads evs2 = uploads evs
                 \<and> r2\<lparr>total_records := None\<rparr> = r'\<lparr>total_records := None\<rparr>)"
proof (intro conjI allI impI)
  show "(\<exists>n. CountQuery n \<in> set evs) \<longleftrightarrow> (total_records r = None \<or> total_records r = Some 0)"
    using handle_total_events [OF assms] by blast
next
  fix n m
  assume n: "total_records r = Some n \<and> n \<noteq> 0"
  then show "HSetTotal m \<notin> set evs"
    using handle_total_events [OF assms] by auto
  show "total_records r' = Some n" if "out \<noteq> Finished"
    using handle_total_events [OF assms] n that by (auto simp: total_in_use_def)
next
  fix t out2 r2 evs2
  assume b: "handle fuel e opts (r\<lparr>total_records := t\<rparr>) = (out2, r2, evs2)
             \<and> total_in_use e opts (total_records r) \<noteq> 0
             \<and> \<not> float_overflow (total_in_use e opts (total_records r))
             \<and> total_in_use e opts t \<noteq> 0
             \<and> \<not> float_overflow (total_in_use e opts t)"
  then have i: "out2 = out \<and> uploads evs2 = uploads evs \<and> pages evs2 = pages evs
       \<and> r2\<lparr>total_records := None\<rparr> = r'\<lparr>total_records := None\<rparr>"
    using handle_total_independent [OF assms, of t out2 r2 evs2] by blast
  from i show "out2 = out" by simp
  from i show "uploads evs2 = uploads evs" by simp
  from i show "r2\<lparr>total_records := None\<rparr> = r'\<lparr>total_records := None\<rparr>" by simp
qed

theorem total_records_only_for_progress_witness:
  "fst (handle 5 example_env (example_options OPINION) (no_status\<lparr>total_records := Some 9\<rparr>))
     = Raised ClientError
   \<and> fst (handle 5 example_env (example_options OPINION) no_status) = Raised ClientError
   \<and> total_records (fst (snd (handle 5 example_env (example_options OPINION)
        (no_status\<lparr>total_records := Some 9\<rparr>)))) = Some 9
   \<and> (\<forall>n. CountQuery n \<notin> set (snd (snd (handle 5 example_env (example_options OPINION)
        (no_status\<lparr>total_records := Some 9\<rparr>)))))
   \<and> (\<exists>n. CountQuery n \<in> set (snd (snd (handle 5 example_env (example_options OPINION) no_status))))
   \<and> uploads (snd (snd (handle 5 example_env (example_options OPINION) no_status)))
       = uploads (snd (snd (handle 5 example_env (example_options OPINION)
           (no_status\<lparr>total_records := Some 9\<rparr>))))"
proof -
  let ?ra = "no_status\<lparr>total_records := Some 9\<rparr>"
  obtain oa ra ea where a: "handle 5 example_env (example_options OPINION) ?ra = (oa, ra, ea)"
    by (cases "handle 5 example_env (example_options OPINION) ?ra") auto
  obtain ob rb eb where b: "handle 5 example_env (example_options OPINION) no_status = (ob, rb, eb)"
    by (cases "handle 5 example_env (example_options OPINION) no_status") auto
  have "fst (handle 5 example_env (example_options OPINION) (no_status\<lparr>total_records := Some 9\<rparr>))
      = Raised ClientError"
    by code_simp
  with a have oa: "oa = Raised ClientError" by simp
  have t: "total_records ?ra = Some 9 \<and> (9 :: int) \<noteq> 0" by simp
  have n: "?ra\<lparr>total_records := None\<rparr> = no_status" by (simp add: no_status_def)
  have ua: "total_in_use example_env (example_options OPINION) (total_records ?ra) = 9"
    by (simp add: total_in_use_def)
  have ub: "total_in_use example_env (example_options OPINION) None = 5"
    by (simp add: total_in_use_def get_total_number_of_records_def example_env_def
        example_options_def table_of_def)
  have f: "\<not> float_overflow 9" "\<not> float_overflow 5"
    by (simp_all add: float_overflow_def)
  note tr = total_records_only_for_progress [OF a]
  from tr t have c: "\<forall>n. CountQuery n \<notin> set ea" by auto
  from tr t oa have d: "total_records ra = Some 9" by auto
  have b': "handle 5 example_env (example_options OPINION) (?ra\<lparr>total_records := None\<rparr>)
      = (ob, rb, eb)"
    by (simp only: n b)
  from tr have "\<forall>t out2 r2 evs2.
             handle 5 example_env (example_options OPINION) (?ra\<lparr>total_records := t\<rparr>)
               = (out2, r2, evs2)
             \<and> total_in_use example_env (example_options OPINION) (total_records ?ra) \<noteq> 0
             \<and> \<not> float_overflow (total_in_use example_env (example_options OPINION)
                   (total_records ?ra))
             \<and> total_in_use example_env (example_options OPINION) t \<noteq> 0
             \<and> \<not> float_overflow (total_in_use example_env (example_options OPINION) t)
             \<longrightarrow> out2 = oa \<and> uploads evs2 = uploads ea
                 \<and> r2\<lparr>total_records := None\<rparr> = ra\<lparr>total_records := None\<rparr>"
    by blast
  from this [rule_format, of None ob rb eb] b' f ua ub
  have i: "ob = oa \<and> uploads eb = uploads ea" by simp
  from total_records_only_for_progress [OF b] have h: "\<exists>n. CountQuery n \<in> set eb"
    by (simp add: no_status_def)
  from a b oa c d i h show ?thesis by simp
qed

text \<open>
  The claim as the specification words it has the count query run only when no value is
  stored, a stored value never change, and the total play no part in what a run does.
  A run over an empty table whose page query fails leaves \<open>total_records = 0\<close> in the
  checkpoint; the next run, over a table that has five records by then, counts again and
  stores 5. And the progress line divides by the total: over a table that was empty
  when it was counted and has records when it is paged, the run with no cached total
  raises \<open>ZeroDivisionError\<close> after its first upload, where the run with a cached total
  of 3 uploads two objects and ends normally.
\<close>

theorem cached_zero_total_counterexample:
  "handle 1 example_env ((example_options ORAL_ARGUMENT)\<lparr>query_batch_size := - 1\<rparr>) no_status
     = (Raised DataError, no_status\<lparr>total_records := Some 0\<rparr>, [CountQuery 0, HSetTotal 0])
   \<and> fst (handle 5 example_env (example_options OPINION) (no_status\<lparr>total_records := Some 0\<rparr>))
       = Raised ClientError
   \<and> total_records (fst (snd (handle 5 example_env (example_options OPINION)
         (no_status\<lparr>total_records := Some 0\<rparr>)))) = Some 5
   \<and> take 2 (snd (snd (handle 5 example_env (example_options OPINION)
         (no_status\<lparr>total_records := Some 0\<rparr>)))) = [CountQuery 5, HSetTotal 5]
   \<and> fst (handle 5 example_env (example_options RECAP_DOCUMENT) no_status)
       = Raised ZeroDivisionError
   \<and> map fst (uploads (snd (snd (handle 5 example_env (example_options RECAP_DOCUMENT) no_status))))
       = [''rd_filelist_0.csv'']
   \<and> fst (handle 5 example_env (example_options RECAP_DOCUMENT)
         (no_status\<lparr>total_records := Some 3\<rparr>)) = Finished
   \<and> map fst (uploads (snd (snd (handle 5 example_env (example_options RECAP_DOCUMENT)
         (no_status\<lparr>total_records := Some 3\<rparr>)))))
       = [''rd_filelist_0.csv'', ''rd_filelist_1.csv'']"
  by code_simp

subsection \<open>Pages, commits and the stored \<open>last_pk\<close>\<close>

lemma fetch_page_sorted:
  assumes "fetch_page e opts lp = Inr (q, ps, rows)"
  shows "sorted rows
       \<and> set rows \<subseteq> set (connections e (use_replica opts) (table_of (record_type opts)))
       \<and> (distinct (connections e (use_replica opts) (table_of (record_type opts)))
            \<longrightarrow> distinct rows)"
proof -
  from assms have q: "q = fst (get_custom_query (record_type opts) lp)"
    and c: "cursor_execute (connections e (use_replica opts)) q ps = Inr rows"
    by (auto simp: fetch_page_def Let_def split: prod.splits sum.splits)
  let ?db = "connections e (use_replica opts) (from_table q)"
  from c obtain n where "rows = take n (sort ?db) \<or> (\<exists>p. rows = take n (sort (filter (\<lambda>i. p < i) ?db)))"
    by (auto simp: cursor_execute_def split: if_splits list.splits)
  then have "sorted rows \<and> set rows \<subseteq> set ?db \<and> (distinct ?db \<longrightarrow> distinct rows)"
    by (auto simp: sorted_wrt_take dest: in_set_takeD)
  then show ?thesis unfolding q from_table_query .
qed

lemma fetch_page_above:
  assumes "fetch_page e opts lp = Inr (q, ps, rows)"
    and "lp = CachedPk p \<or> lp = RowPk p \<and> p \<noteq> 0"
  shows "\<forall>i \<in> set rows. p < i"
proof -
  from assms(2) have g: "get_custom_query (record_type opts) lp
      = (\<lparr>from_table = table_of (record_type opts), id_greater = True\<rparr>, [p])"
    by (cases "record_type opts") (auto simp: get_custom_query_def truthy_def table_of_def)
  from assms(1) obtain n where
    "rows = take n (sort (filter (\<lambda>i. p < i)
       (connections e (use_replica opts) (table_of (record_type opts)))))"
    unfolding fetch_page_def g
    by (auto simp: cursor_execute_def Let_def split: if_splits sum.splits)
  then show ?thesis by (auto dest: in_set_takeD)
qed

lemma sorted_le_last: "sorted xs \<Longrightarrow> x \<in> set xs \<Longrightarrow> x \<le> last xs"
  by (induction xs) (auto split: if_splits)

lemma export_loop_pages:
  assumes "export_loop fuel e opts t lp c r = (out, r', evs)"
    and "lp = CachedPk p \<or> lp = RowPk p \<and> p \<noteq> 0"
    and "0 \<notin> set (connections e (use_replica opts) (table_of (record_type opts)))"
  shows "(\<forall>rows \<in> set (pages evs). \<forall>i \<in> set rows. p < i)
       \<and> sorted_wrt (\<lambda>a b. \<forall>i \<in> set a. \<forall>j \<in> set b. i < j) (pages evs)
       \<and> (distinct (connections e (use_replica opts) (table_of (record_type opts)))
            \<longrightarrow> sorted_wrt (<) (concat (pages evs)))"
  using assms(1,2)
proof (induction fuel arbitrary: lp c r out r' evs p)
  case 0
  then show ?case by auto
next
  case (Suc fuel)
  let ?D = "distinct (connections e (use_replica opts) (table_of (record_type opts)))"
  note lp = Suc.prems(2)
  have page: "sorted rows \<and> (\<forall>i \<in> set rows. p < i) \<and> (?D \<longrightarrow> sorted_wrt (<) rows)
      \<and> 0 \<notin> set rows"
    if "fetch_page e opts lp = Inr (q, ps, rows)" for q ps rows
    using fetch_page_sorted [OF that] fetch_page_above [OF that lp] assms(3)
    by (auto simp: strict_sorted_iff)
  from Suc.prems(1) show ?case
  proof (cases rule: export_loop_Suc_cases)
    case stop
    from loop_body_Stop [OF stop] page show ?thesis by auto
  next
    case (continue lp1 c1 r1 evs1 evs2)
    from loop_body_Continue [OF continue(1)]
    obtain q ps rows where f: "fetch_page e opts lp = Inr (q, ps, rows)" and ne: "rows \<noteq> []"
      and lp1: "lp1 = RowPk (last rows)" and p1: "pages evs1 = [rows]"
      by auto
    from page [OF f] have srt: "sorted rows" and ab: "\<forall>i \<in> set rows. p < i"
      and ds: "?D \<longrightarrow> sorted_wrt (<) rows" and nz: "0 \<notin> set rows" by auto
    from ab last_in_set [OF ne] have pl: "p < last rows" by blast
    from nz last_in_set [OF ne] have pos: "last rows \<noteq> 0" by metis
    from Suc.IH [OF continue(2), of "last rows"] lp1 pos
    have ih: "\<forall>rows' \<in> set (pages evs2). \<forall>i \<in> set rows'. last rows < i"
      and ih2: "sorted_wrt (\<lambda>a b. \<forall>i \<in> set a. \<forall>j \<in> set b. i < j) (pages evs2)"
      and ih3: "?D \<longrightarrow> sorted_wrt (<) (concat (pages evs2))" by auto
    have le: "\<forall>i \<in> set rows. i \<le> last rows"
      using srt by (auto intro: sorted_le_last)
    have pg: "pages evs = rows # pages evs2"
      using continue(3) p1 by simp
    have a: "\<forall>rows' \<in> set (pages evs). \<forall>i \<in> set rows'. p < i"
      unfolding pg using ab ih pl by fastforce
    have b: "sorted_wrt (\<lambda>a b. \<forall>i \<in> set a. \<forall>j \<in> set b. i < j) (pages evs)"
      unfolding pg using ih ih2 le by fastforce
    have c: "?D \<longrightarrow> sorted_wrt (<) (concat (pages evs))"
      unfolding pg using ds ih ih3 le by (fastforce simp: sorted_wrt_append)
    from a b c show ?thesis by blast
  qed
qed

lemma last_batches: "0 < n \<Longrightarrow> xs \<noteq> [] \<Longrightarrow> last (last (batches n xs)) = last xs"
proof (induction n xs rule: batches.induct)
  case (1 n xs)
  from 1(2,3) have step: "batches n xs = take n xs # batches n (drop n xs)"
    by (simp add: batches_step)
  show ?case
  proof (cases "drop n xs = []")
    case True
    then have "take n xs = xs" by simp
    with True step show ?thesis by simp
  next
    case False
    with 1 have "last (last (batches n (drop n xs))) = last (drop n xs)" by simp
    moreover from False 1(2) have "batches n (drop n xs) \<noteq> []" by (simp add: batches_nonempty)
    moreover from False have "last (drop n xs) = last xs" by simp
    ultimately show ?thesis using step by simp
  qed
qed

lemma file_name_ends:
  assumes "file_name g = Inr f"
  shows "\<exists>pre. f = pre @ py_str (last g)"
proof (cases "length g > 1")
  case True
  with assms have "f = (py_str (hd g) @ ''_'') @ py_str (last g)"
    by (auto simp: file_name_def split: if_splits)
  then show ?thesis by blast
next
  case False
  with assms have "g \<noteq> []" and "f = py_str (hd g)"
    by (auto simp: file_name_def split: if_splits)
  with False have "f = [] @ py_str (last g)" by (cases g) auto
  then show ?thesis by blast
qed

lemma manifest_body_last:
  assumes "manifest_body bucket rows n = Inr body" and "rows \<noteq> []"
  shows "\<exists>pre. body = pre @ py_str (last rows) @ [CHR 0x0D, CHR 0x0A]"
proof -
  let ?line = "\<lambda>f. csv_field bucket @ '','' @ f @ [CHR 0x0D, CHR 0x0A]"
  from manifest_body_lines [OF assms(1)] obtain gs names where
    gs: "batched rows n = Inr gs" and names: "map file_name gs = map Inr names"
    and body: "body = concat (map ?line names)" by blast
  from gs have n: "0 < nat n" and gs': "gs = batches (nat n) rows"
    by (auto simp: batched_def split: if_splits)
  from n assms(2) gs' have ne: "gs \<noteq> []" and l: "last (last gs) = last rows"
    by (simp_all add: batches_nonempty last_batches)
  from names have "length (map file_name gs) = length (map Inr names)" by simp
  then have len: "length names = length gs" by simp
  with ne have nn: "names \<noteq> []" by auto
  from names have "last (map file_name gs) = last (map Inr names)" by simp
  with ne nn have "file_name (last gs) = Inr (last names)"
    by (simp add: last_map)
  from file_name_ends [OF this] l obtain pre where pre: "last names = pre @ py_str (last rows)"
    by auto
  have "concat (map ?line (butlast names @ [last names]))
      = concat (map ?line (butlast names)) @ ?line (last names)"
    by simp
  with nn have "body = concat (map ?line (butlast names)) @ ?line (last names)"
    unfolding body by simp
  then have "body = (concat (map ?line (butlast names)) @ csv_field bucket @ '','' @ pre)
      @ py_str (last rows) @ [CHR 0x0D, CHR 0x0A]"
    unfolding pre by simp
  then show ?thesis by blast
qed

lemma commits_snoc_Delete [simp]: "commits (evs @ [Delete]) = commits evs"
  by (induction evs rule: commits.induct) auto

lemma export_loop_commits:
  assumes "export_loop fuel e opts t lp c r = (out, r', evs)"
  shows "(\<forall>rows body l. (rows, body, l) \<in> set (commits evs) \<longrightarrow>
            rows \<noteq> [] \<and> sorted rows \<and> l = last rows
            \<and> manifest_body (bucket_name opts) rows (lambda_record_size opts) = Inr body)
       \<and> last_pk r' = (if commits evs = [] then last_pk r
                        else Some (snd (snd (last (commits evs)))))"
  using assms
proof (induction fuel arbitrary: lp c r out r' evs)
  case 0
  then show ?case by auto
next
  case (Suc fuel)
  from Suc.prems show ?case
  proof (cases rule: export_loop_Suc_cases)
    case stop
    from loop_body_Stop [OF stop] show ?thesis
      by (auto dest: fetch_page_sorted)
  next
    case (continue lp1 c1 r1 evs1 evs2)
    from loop_body_Continue [OF continue(1)]
    obtain q ps rows body n where f: "fetch_page e opts lp = Inr (q, ps, rows)"
      and ne: "rows \<noteq> []"
      and m: "manifest_body (bucket_name opts) rows (lambda_record_size opts) = Inr body"
      and r1: "last_pk r1 = Some (last rows)"
      and evs1: "evs1 = [SelectQuery q ps rows,
                  PutObject (object_key (SEARCH_TYPES e (record_type opts)) c)
                    (bucket_name opts) body,
                  HSetProgress (last rows) (c + 1) n]"
      by auto
    have cm: "commits evs = (rows, body, last rows) # commits evs2"
      using continue(3) evs1 by simp
    from fetch_page_sorted [OF f] have srt: "sorted rows" by simp
    from Suc.IH [OF continue(2)] r1 cm ne m srt show ?thesis by auto
  qed
qed

lemma export_loop_bound:
  assumes "export_loop fuel e opts t lp c r = (out, r', evs)"
    and "lp = CachedPk p \<or> lp = RowPk p \<and> p \<noteq> 0"
    and "last_pk r = Some p"
    and "0 \<notin> set (connections e (use_replica opts) (table_of (record_type opts)))"
  shows "\<exists>q. last_pk r' = Some q \<and> p \<le> q
           \<and> (\<forall>rows body l. (rows, body, l) \<in> set (commits evs) \<longrightarrow> (\<forall>i \<in> set rows. i \<le> q))"
  using assms(1,2,3)
proof (induction fuel arbitrary: lp c r out r' evs p)
  case 0
  then show ?case by auto
next
  case (Suc fuel)
  note lp = Suc.prems(2)
  have page: "rows \<noteq> [] \<longrightarrow> p < last rows \<and> last rows \<noteq> 0 \<and> (\<forall>i \<in> set rows. i \<le> last rows)"
    if "fetch_page e opts lp = Inr (q, ps, rows)" for q ps rows
  proof
    assume ne: "rows \<noteq> []"
    from fetch_page_sorted [OF that] have s: "sorted rows"
      and sub: "set rows \<subseteq> set (connections e (use_replica opts) (table_of (record_type opts)))"
      by auto
    from fetch_page_above [OF that lp] last_in_set [OF ne] have "p < last rows" by blast
    moreover from sub last_in_set [OF ne] assms(4) have "last rows \<noteq> 0" by auto
    moreover from s have "\<forall>i \<in> set rows. i \<le> last rows" by (auto intro: sorted_le_last)
    ultimately show "p < last rows \<and> last rows \<noteq> 0 \<and> (\<forall>i \<in> set rows. i \<le> last rows)"
      by blast
  qed
  from Suc.prems(1) show ?case
  proof (cases rule: export_loop_Suc_cases)
    case stop
    from loop_body_Stop [OF stop]
    consider (same) "r' = r" "commits evs = []"
      | (logged) q ps rows body where "fetch_page e opts lp = Inr (q, ps, rows)" "rows \<noteq> []"
          "last_pk r' = Some (last rows)" "commits evs = [(rows, body, last rows)]"
      by (elim disjE exE conjE) auto
    then show ?thesis
    proof cases
      case same
      with Suc.prems(3) show ?thesis by simp
    next
      case logged
      from page [OF logged(1)] logged(2) have "p < last rows" "\<forall>i \<in> set rows. i \<le> last rows"
        by auto
      with logged(3,4) show ?thesis by simp
    qed
  next
    case (continue lp1 c1 r1 evs1 evs2)
    from loop_body_Continue [OF continue(1)]
    obtain q ps rows body n where f: "fetch_page e opts lp = Inr (q, ps, rows)"
      and ne: "rows \<noteq> []"
      and lp1: "lp1 = RowPk (last rows)"
      and r1: "last_pk r1 = Some (last rows)"
      and evs1: "evs1 = [SelectQuery q ps rows,
                  PutObject (object_key (SEARCH_TYPES e (record_type opts)) c)
                    (bucket_name opts) body,
                  HSetProgress (last rows) (c + 1) n]"
      by auto
    from page [OF f] ne have pl: "p < last rows" and pos: "last rows \<noteq> 0"
      and le: "\<forall>i \<in> set rows. i \<le> last rows"
      by auto
    from Suc.IH [OF continue(2), of "last rows"] lp1 pos r1
    obtain q' where q': "last_pk r' = Some q'" "last rows \<le> q'"
      "\<forall>rows body l. (rows, body, l) \<in> set (commits evs2) \<longrightarrow> (\<forall>i \<in> set rows. i \<le> q')"
      by blast
    have cm: "commits evs = (rows, body, last rows) # commits evs2"
      using continue(3) evs1 by simp
    from q' pl le have "p \<le> q'" and "\<forall>i \<in> set rows. i \<le> q'" by auto
    with q' cm show ?thesis by auto
  qed
qed

subsection \<open>C1: resuming after the checkpoint\<close>

text \<open>
  Claim C1. The keys of the table are assigned by the database, which never assigns 0;
  this is the third hypothesis. Take a run that starts with a checkpoint holding a
  \<open>last_pk\<close>, and look at it after any number of iterations. Every identifier fetched
  is greater than the checkpoint's \<open>last_pk\<close>; every identifier of a page is smaller
  than every identifier of the pages fetched after it, and where the keys of the table
  are distinct the identifiers fetched, in order, are strictly increasing, so none is
  fetched twice. For each committed batch the \<open>last_pk\<close> stored is the maximum
  identifier of the batch, which is the last identifier written to its manifest. Unless
  the run ended by deleting the checkpoint, the checkpoint's \<open>last_pk\<close> is the one
  stored by the last committed batch (the initial one if there is none), and no
  committed identifier is above it: the next run starts after all of them.
\<close>

theorem resume_after_last_pk:
  assumes "handle fuel e opts r = (out, r', evs)" and "last_pk r = Some p"
    and "0 \<notin> set (connections e (use_replica opts) (table_of (record_type opts)))"
  shows "(\<forall>rows \<in> set (pages evs). \<forall>i \<in> set rows. p < i)
       \<and> sorted_wrt (\<lambda>a b. \<forall>i \<in> set a. \<forall>j \<in> set b. i < j) (pages evs)
       \<and> (distinct (connections e (use_replica opts) (table_of (record_type opts)))
            \<longrightarrow> sorted_wrt (<) (concat (pages evs)))
       \<and> (\<forall>rows body l. (rows, body, l) \<in> set (commits evs) \<longrightarrow>
              rows \<noteq> [] \<and> l = Max (set rows)
              \<and> (\<exists>pre. body = pre @ py_str l @ [CHR 0x0D, CHR 0x0A]))
       \<and> (out \<noteq> Finished \<longrightarrow>
              last_pk r' = (if commits evs = [] then Some p
                            else Some (snd (snd (last (commits evs)))))
              \<and> (\<exists>q. last_pk r' = Some q \<and> p \<le> q
                    \<and> (\<forall>rows body l. (rows, body, l) \<in> set (commits evs) \<longrightarrow>
                          (\<forall>i \<in> set rows. i \<le> q))))"
  using assms(1)
proof (cases rule: handle_cases)
  case (1 t r1 evs1 r2 evs2)
  have lp: "cached_pk r = CachedPk p \<or> cached_pk r = RowPk p \<and> p \<noteq> 0"
    using assms(2) by (simp add: cached_pk_def)
  have r1: "last_pk r1 = Some p" using 1(3) assms(2) by simp
  have e1: "pages evs1 = []" "uploads evs1 = []" using 1(6) by auto
  have shape: "evs = evs1 @ evs2 @ [Delete] \<or> evs = evs1 @ evs2"
    using 1(7) 1(8) by (cases "out = Finished") auto
  then have pg: "pages evs = pages evs2"
    using e1 by auto
  have cm: "commits evs = commits evs2"
    using shape 1(6) by auto
  note P = export_loop_pages [OF 1(1) lp assms(3), folded pg]
  note C = export_loop_commits [OF 1(1), folded cm]
  note B = export_loop_bound [OF 1(1) lp r1 assms(3), folded cm]
  have c5: "\<forall>rows body l. (rows, body, l) \<in> set (commits evs) \<longrightarrow>
              rows \<noteq> [] \<and> l = Max (set rows)
              \<and> (\<exists>pre. body = pre @ py_str l @ [CHR 0x0D, CHR 0x0A])"
  proof (intro allI impI)
    fix rows body l
    assume "(rows, body, l) \<in> set (commits evs)"
    with C have ne: "rows \<noteq> []" and s: "sorted rows" and l: "l = last rows"
      and m: "manifest_body (bucket_name opts) rows (lambda_record_size opts) = Inr body"
      by blast+
    from manifest_body_last [OF m ne] sorted_last_Max [OF s ne] ne l
    show "rows \<noteq> [] \<and> l = Max (set rows)
        \<and> (\<exists>pre. body = pre @ py_str l @ [CHR 0x0D, CHR 0x0A])"
      by simp
  qed
  have c6: "out \<noteq> Finished \<longrightarrow>
              last_pk r' = (if commits evs = [] then Some p
                            else Some (snd (snd (last (commits evs)))))
              \<and> (\<exists>q. last_pk r' = Some q \<and> p \<le> q
                    \<and> (\<forall>rows body l. (rows, body, l) \<in> set (commits evs) \<longrightarrow>
                          (\<forall>i \<in> set rows. i \<le> q)))"
  proof
    assume "out \<noteq> Finished"
    with 1(8) have "r' = r2" by simp
    with C B r1 show "last_pk r' = (if commits evs = [] then Some p
                            else Some (snd (snd (last (commits evs)))))
              \<and> (\<exists>q. last_pk r' = Some q \<and> p \<le> q
                    \<and> (\<forall>rows body l. (rows, body, l) \<in> set (commits evs) \<longrightarrow>
                          (\<forall>i \<in> set rows. i \<le> q)))"
      by simp
  qed
  from P c5 c6 show ?thesis by blast
qed

theorem resume_after_last_pk_witness:
  "last_pk (no_status\<lparr>last_pk := Some 2\<rparr>) = Some 2
   \<and> 0 \<notin> set (connections example_env (use_replica (example_options OPINION))
                (table_of (record_type (example_options OPINION))))
   \<and> distinct (connections example_env (use_replica (example_options OPINION))
                (table_of (record_type (example_options OPINION))))
   \<and> pages (snd (snd (handle 5 example_env (example_options OPINION)
        (no_status\<lparr>last_pk := Some 2\<rparr>)))) = [[3, 5], [7], []]
   \<and> list_all (list_all (\<lambda>i. 2 < i))
        (pages (snd (snd (handle 5 example_env (example_options OPINION)
           (no_status\<lparr>last_pk := Some 2\<rparr>)))))
   \<and> sorted_wrt (<) (concat (pages (snd (snd (handle 5 example_env (example_options OPINION)
        (no_status\<lparr>last_pk := Some 2\<rparr>))))))
   \<and> fst (handle 1 example_env (example_options OPINION) (no_status\<lparr>last_pk := Some 2\<rparr>))
       = OutOfFuel
   \<and> commits (snd (snd (handle 1 example_env (example_options OPINION)
        (no_status\<lparr>last_pk := Some 2\<rparr>))))
       = [([3, 5], ''bucket,3_5'' @ [CHR 0x0D, CHR 0x0A], 5)]
   \<and> last_pk (fst (snd (handle 1 example_env (example_options OPINION)
        (no_status\<lparr>last_pk := Some 2\<rparr>)))) = Some 5"
proof -
  let ?r = "no_status\<lparr>last_pk := Some 2\<rparr>"
  have lp: "last_pk ?r = Some 2" by simp
  have db: "connections example_env (use_replica (example_options OPINION))
      (table_of (record_type (example_options OPINION))) = [3, 1, 2, 7, 5]"
    by (simp add: example_env_def example_options_def table_of_def)
  have nz: "0 \<notin> set (connections example_env (use_replica (example_options OPINION))
                (table_of (record_type (example_options OPINION))))"
    unfolding db by simp
  have ds: "distinct (connections example_env (use_replica (example_options OPINION))
                (table_of (record_type (example_options OPINION))))"
    unfolding db by simp
  obtain o5 r5 e5 where h5: "handle 5 example_env (example_options OPINION) ?r = (o5, r5, e5)"
    by (cases "handle 5 example_env (example_options OPINION) ?r") auto
  obtain o1 r1 e1 where h1: "handle 1 example_env (example_options OPINION) ?r = (o1, r1, e1)"
    by (cases "handle 1 example_env (example_options OPINION) ?r") auto
  have "pages (snd (snd (handle 5 example_env (example_options OPINION)
        (no_status\<lparr>last_pk := Some 2\<rparr>)))) = [[3, 5], [7], []]"
    by code_simp
  with h5 have p5: "pages e5 = [[3, 5], [7], []]" by simp
  have "fst (handle 1 example_env (example_options OPINION) (no_status\<lparr>last_pk := Some 2\<rparr>))
       = OutOfFuel"
    by code_simp
  with h1 have o1: "o1 = OutOfFuel" by simp
  have "commits (snd (snd (handle 1 example_env (example_options OPINION)
        (no_status\<lparr>last_pk := Some 2\<rparr>))))
       = [([3, 5], ''bucket,3_5'' @ [CHR 0x0D, CHR 0x0A], 5)]"
    by code_simp
  with h1 have c1: "commits e1 = [([3, 5], ''bucket,3_5'' @ [CHR 0x0D, CHR 0x0A], 5)]" by simp
  note R5 = resume_after_last_pk [OF h5 lp nz]
  from R5 have "\<forall>rows \<in> set (pages e5). \<forall>i \<in> set rows. 2 < i" by blast
  then have a: "list_all (list_all (\<lambda>i. 2 < i)) (pages e5)"
    by (simp add: list_all_iff)
  from R5 ds have a': "sorted_wrt (<) (concat (pages e5))" by blast
  note R1 = resume_after_last_pk [OF h1 lp nz]
  from R1 have "o1 \<noteq> Finished \<longrightarrow>
      last_pk r1 = (if commits e1 = [] then Some 2 else Some (snd (snd (last (commits e1)))))"
    by blast
  with o1 c1 have b: "last_pk r1 = Some 5" by simp
  from lp nz ds h5 h1 p5 o1 c1 a a' b show ?thesis by simp
qed

text \<open>
  Where the hypothesis is used: \<open>get_custom_query\<close> tests \<open>if not last_pk\<close>, and the
  int 0 is false in Python, so the page query that follows a batch ending at the key 0
  would have no \<open>id > %s\<close> condition.
\<close>

lemma zero_key_page_again:
  "pages (snd (snd (handle 2 (example_env\<lparr>connections := \<lambda>replica t. [- 3, 0, 7]\<rparr>)
        (example_options RECAP_DOCUMENT)
        (no_status\<lparr>last_pk := Some (- 5), total_records := Some 3\<rparr>))))
     = [[- 3, 0], [- 3, 0]]"
  by code_simp

subsection \<open>C10: the maintenance mode middleware\<close>

text \<open>
  Claim C10. With maintenance mode disabled, constructing the middleware raises
  \<open>MiddlewareNotUsed\<close>, and the chain that the framework builds is the handler alone:
  no request goes through the middleware. With maintenance mode enabled the
  construction succeeds, and for every request: if the request has a user who is staff
  and the allow-staff setting is on, the response is the one of the handler, unchanged;
  otherwise it is the page rendered from \<open>maintenance.html\<close> with status 503
  (Service Unavailable) and the never-cache headers set.
\<close>

theorem maintenance_mode:
  "(\<not> MAINTENANCE_MODE_ENABLED s \<longrightarrow>
      middleware_init s handler = Inl MiddlewareNotUsed \<and> load_middleware s handler = Inr handler)
   \<and> (MAINTENANCE_MODE_ENABLED s \<longrightarrow>
        (\<exists>mw. middleware_init s handler = Inr mw
           \<and> load_middleware s handler = Inr (middleware_call s mw)
           \<and> (\<forall>req.
                 ((\<exists>u. user req = Some u \<and> is_staff u) \<and> MAINTENANCE_MODE_ALLOW_STAFF s
                    \<longrightarrow> middleware_call s mw req = handler req)
               \<and> (\<not> ((\<exists>u. user req = Some u \<and> is_staff u) \<and> MAINTENANCE_MODE_ALLOW_STAFF s)
                    \<longrightarrow> middleware_call s mw req
                          = \<lparr>status_code = 503, template_name = ''maintenance.html'',
                             template_context = [(''private'', True)], never_cache = True\<rparr>))))"
  by (auto simp: middleware_init_def load_middleware_def middleware_call_def Let_def
      add_never_cache_headers_def render_def SERVICE_UNAVAILABLE_def split: option.splits)

theorem maintenance_mode_witness:
  "middleware_init \<lparr>MAINTENANCE_MODE_ENABLED = False, MAINTENANCE_MODE_ALLOW_STAFF = True\<rparr>
      (\<lambda>req. \<lparr>status_code = 200, template_name = path req, template_context = [],
                never_cache = False\<rparr>) = Inl MiddlewareNotUsed
   \<and> (\<exists>mw. middleware_init \<lparr>MAINTENANCE_MODE_ENABLED = True, MAINTENANCE_MODE_ALLOW_STAFF = True\<rparr>
          (\<lambda>req. \<lparr>status_code = 200, template_name = path req, template_context = [],
                    never_cache = False\<rparr>) = Inr mw
        \<and> middleware_call \<lparr>MAINTENANCE_MODE_ENABLED = True, MAINTENANCE_MODE_ALLOW_STAFF = True\<rparr>
            mw \<lparr>path = ''/opinion/'', user = Some \<lparr>is_staff = True\<rparr>\<rparr>
            = \<lparr>status_code = 200, template_name = ''/opinion/'', template_context = [],
               never_cache = False\<rparr>
        \<and> middleware_call \<lparr>MAINTENANCE_MODE_ENABLED = True, MAINTENANCE_MODE_ALLOW_STAFF = True\<rparr>
            mw \<lparr>path = ''/opinion/'', user = Some \<lparr>is_staff = False\<rparr>\<rparr>
            = \<lparr>status_code = 503, template_name = ''maintenance.html'',
               template_context = [(''private'', True)], never_cache = True\<rparr>
        \<and> middleware_call \<lparr>MAINTENANCE_MODE_ENABLED = True, MAINTENANCE_MODE_ALLOW_STAFF = True\<rparr>
            mw \<lparr>path = ''/opinion/'', user = None\<rparr>
            = \<lparr>status_code = 503, template_name = ''maintenance.html'',
               template_context = [(''private'', True)], never_cache = True\<rparr>)"
proof -
  let ?h = "\<lambda>req. \<lparr>status_code = 200, template_name = path req, template_context = [],
                never_cache = False\<rparr>"
  let ?on = "\<lparr>MAINTENANCE_MODE_ENABLED = True, MAINTENANCE_MODE_ALLOW_STAFF = True\<rparr>"
  let ?off = "\<lparr>MAINTENANCE_MODE_ENABLED = False, MAINTENANCE_MODE_ALLOW_STAFF = True\<rparr>"
  from maintenance_mode [of ?off ?h] have a: "middleware_init ?off ?h = Inl MiddlewareNotUsed"
    by simp
  from maintenance_mode [of ?on ?h] obtain mw where mw: "middleware_init ?on ?h = Inr mw"
    and c: "\<forall>req.
                 ((\<exists>u. user req = Some u \<and> is_staff u) \<and> MAINTENANCE_MODE_ALLOW_STAFF ?on
                    \<longrightarrow> middleware_call ?on mw req = ?h req)
               \<and> (\<not> ((\<exists>u. user req = Some u \<and> is_staff u) \<and> MAINTENANCE_MODE_ALLOW_STAFF ?on)
                    \<longrightarrow> middleware_call ?on mw req
                          = \<lparr>status_code = 503, template_name = ''maintenance.html'',
                             template_context = [(''private'', True)], never_cache = True\<rparr>)"
    by auto
  from c [rule_format, of "\<lparr>path = ''/opinion/'', user = Some \<lparr>is_staff = True\<rparr>\<rparr>"]
  have s1: "middleware_call ?on mw \<lparr>path = ''/opinion/'', user = Some \<lparr>is_staff = True\<rparr>\<rparr>
      = \<lparr>status_code = 200, template_name = ''/opinion/'', template_context = [],
         never_cache = False\<rparr>" by simp
  from c [rule_format, of "\<lparr>path = ''/opinion/'', user = Some \<lparr>is_staff = False\<rparr>\<rparr>"]
  have s2: "middleware_call ?on mw \<lparr>path = ''/opinion/'', user = Some \<lparr>is_staff = False\<rparr>\<rparr>
      = \<lparr>status_code = 503, template_name = ''maintenance.html'',
         template_context = [(''private'', True)], never_cache = True\<rparr>" by simp
  from c [rule_format, of "\<lparr>path = ''/opinion/'', user = None\<rparr>"]
  have s3: "middleware_call ?on mw \<lparr>path = ''/opinion/'', user = None\<rparr>
      = \<lparr>status_code = 503, template_name = ''maintenance.html'',
         template_context = [(''private'', True)], never_cache = True\<rparr>" by simp
  from a mw s1 s2 s3 show ?thesis by blast
qed

subsection \<open>N-grams, phrases and where they are found\<close>

lemma slice_nonempty: "i < length w \<Longrightarrow> i < j \<Longrightarrow> slice w i j \<noteq> []"
  by (simp add: slice_def)

lemma set_slice: "set (slice w i j) \<subseteq> set w"
  unfolding slice_def by (meson set_take_subset set_drop_subset subset_trans)

lemma ngram_words:
  assumes "g \<in> set (generate_ngrams w)"
  shows "g \<noteq> [] \<and> set g \<subseteq> set w"
proof -
  from assms consider (one) x where "x \<in> set w" "g = [x]"
    | (two) i where "i < length w - 1" "g = slice w i (i + 2)"
    | (five) i where "i < length w - 4" "g = slice w i (i + 5)"
    by (auto simp: generate_ngrams_def split: if_splits)
  then show ?thesis
  proof cases
    case one
    then show ?thesis by simp
  next
    case two
    then show ?thesis using slice_nonempty [of i w "i + 2"] set_slice [of w i "i + 2"] by simp
  next
    case five
    then show ?thesis using slice_nonempty [of i w "i + 5"] set_slice [of w i "i + 5"] by simp
  qed
qed

lemma join_words_nonempty: "g \<noteq> [] \<Longrightarrow> [] \<notin> set g \<Longrightarrow> join_words g \<noteq> []"
  by (induction g rule: join_words.induct) auto

lemma find_from_range:
  "sub \<noteq> [] \<Longrightarrow>
     find_from sub i s = - 1
     \<or> (int i \<le> find_from sub i s \<and> find_from sub i s < int i + int (length s))"
proof (induction s arbitrary: i)
  case Nil
  then show ?case by simp
next
  case (Cons c cs)
  show ?case
  proof (cases "take (length sub) (c # cs) = sub")
    case True
    then show ?thesis by simp
  next
    case False
    with Cons.IH [OF Cons.prems, of "i + 1"] show ?thesis by auto
  qed
qed

lemma py_count_not_found:
  "sub \<noteq> [] \<Longrightarrow> find_from sub i s = - 1 \<Longrightarrow> py_count s sub = 0"
proof (induction s arbitrary: i)
  case Nil
  then show ?case by (subst py_count.simps) simp
next
  case (Cons c cs)
  from Cons.prems(2) have nt: "take (length sub) (c # cs) \<noteq> sub"
    by (auto split: if_splits)
  with Cons.prems(2) have "find_from sub (i + 1) cs = - 1" by simp
  from Cons.IH [OF Cons.prems(1) this] have "py_count cs sub = 0" .
  with nt Cons.prems(1) show ?case by (subst py_count.simps) simp
qed

lemma py_find_unique:
  assumes "py_count s sub = 1" and "sub \<noteq> []"
  shows "0 \<le> py_find s sub \<and> py_find s sub < int (length s)"
proof -
  from assms py_count_not_found [of sub 0 s] have "find_from sub 0 s \<noteq> - 1" by auto
  with find_from_range [OF assms(2), of 0 s] show ?thesis by (simp add: py_find_def)
qed

lemma first_unique_None:
  "first_unique ref gs = None \<longleftrightarrow> (\<forall>g \<in> set gs. py_count ref (join_words g) \<noteq> 1)"
  by (induction gs) (auto simp: Let_def)

lemma first_unique_Some:
  "first_unique ref gs = Some i \<Longrightarrow>
     \<exists>g \<in> set gs. py_count ref (join_words g) = 1 \<and> i = py_find ref (join_words g)"
  by (induction gs) (auto simp: Let_def split: if_splits)

lemma match_index_unmatched:
  "(\<forall>g \<in> set (generate_ngrams w). py_count ref (join_words g) \<noteq> 1) \<Longrightarrow>
     match_index ref w = int (length ref)"
  using first_unique_None [of ref "generate_ngrams w"] by (simp add: match_index_def)

lemma match_index_matched:
  assumes "\<exists>g \<in> set (generate_ngrams w). py_count ref (join_words g) = 1" and "[] \<notin> set w"
  shows "0 \<le> match_index ref w \<and> match_index ref w < int (length ref)"
proof -
  from assms(1) first_unique_None [of ref "generate_ngrams w"]
  obtain i where i: "first_unique ref (generate_ngrams w) = Some i" by auto
  from first_unique_Some [OF i] obtain g where g: "g \<in> set (generate_ngrams w)"
    and c: "py_count ref (join_words g) = 1" and f: "i = py_find ref (join_words g)" by blast
  from ngram_words [OF g] assms(2) have "g \<noteq> []" and "[] \<notin> set g" by auto
  then have "join_words g \<noteq> []" by (rule join_words_nonempty)
  from py_find_unique [OF c this] i f show ?thesis by (simp add: match_index_def)
qed

lemma match_index_le:
  assumes "[] \<notin> set w"
  shows "match_index ref w \<le> int (length ref)"
proof (cases "\<exists>g \<in> set (generate_ngrams w). py_count ref (join_words g) = 1")
  case True
  from match_index_matched [OF True assms] show ?thesis by simp
next
  case False
  then show ?thesis using match_index_unmatched [of w ref] by simp
qed

subsection \<open>C9: the order of the opinions\<close>

text \<open>
  Claim C9. The words of an opinion come from \<open>re.findall(r"\b\w+\b", ...)\<close>, so none
  is empty; this is the second hypothesis. When \<open>match_text\<close> returns, it returns one
  entry per opinion, in ascending order of match index. An opinion none of whose
  n-grams occurs exactly once in the reference text (\<open>columbia_words.count(phrase) == 1\<close>
  never holds) has the length of the reference text as its match index; an opinion with
  such an n-gram has a smaller one. So once an entry with the length of the reference
  text as its index appears in the result, every entry after it has that index too: the
  opinions that were not located come after all the ones that were.
\<close>

theorem unmatched_opinions_sort_last:
  assumes "match_text read_text words_of opinions xml_dir = Inr res"
    and "\<forall>h. [] \<notin> set (words_of h)"
  shows "\<exists>ref.
      get_xml read_text (py_replace (local_path (hd opinions))
          ''/home/mlissner/columbia/opinions'' xml_dir) = Inr ref
    \<and> mset res = mset (map (\<lambda>op. (op_id op, op_type op,
                                match_index ref (words_of (html_columbia op)))) opinions)
    \<and> (\<forall>op \<in> set opinions.
          (\<forall>g \<in> set (generate_ngrams (words_of (html_columbia op))).
              py_count ref (join_words g) \<noteq> 1)
          \<longrightarrow> match_index ref (words_of (html_columbia op)) = int (length ref))
    \<and> (\<forall>op \<in> set opinions.
          (\<exists>g \<in> set (generate_ngrams (words_of (html_columbia op))).
              py_count ref (join_words g) = 1)
          \<longrightarrow> match_index ref (words_of (html_columbia op)) < int (length ref))
    \<and> sorted (map (\<lambda>(i, t, m). m) res)
    \<and> (\<forall>j k. j < k \<and> k < length res \<and> snd (snd (res ! j)) = int (length ref)
          \<longrightarrow> snd (snd (res ! k)) = int (length ref))"
proof -
  let ?path = "py_replace (local_path (hd opinions)) ''/home/mlissner/columbia/opinions'' xml_dir"
  from assms(1) obtain ref where x: "get_xml read_text ?path = Inr ref"
    and res: "res = sort_key (\<lambda>(i, t, m). m)
        (map (\<lambda>op. (op_id op, op_type op, match_index ref (words_of (html_columbia op))))
           opinions)"
    by (auto simp: match_text_def Let_def split: if_splits sum.splits)
  let ?entry = "\<lambda>op. (op_id op, op_type op, match_index ref (words_of (html_columbia op)))"
  let ?key = "\<lambda>(i :: int, t :: string, m :: int). m"
  have key: "?key = (\<lambda>x. snd (snd x))" by (simp add: fun_eq_iff)
  have m: "mset res = mset (map ?entry opinions)"
    unfolding res by simp
  have u: "\<forall>op \<in> set opinions.
          (\<forall>g \<in> set (generate_ngrams (words_of (html_columbia op))).
              py_count ref (join_words g) \<noteq> 1)
          \<longrightarrow> match_index ref (words_of (html_columbia op)) = int (length ref)"
    by (simp add: match_index_unmatched)
  have f: "\<forall>op \<in> set opinions.
          (\<exists>g \<in> set (generate_ngrams (words_of (html_columbia op))).
              py_count ref (join_words g) = 1)
          \<longrightarrow> match_index ref (words_of (html_columbia op)) < int (length ref)"
    using assms(2) match_index_matched [of _ ref] by blast
  have s: "sorted (map ?key res)"
    unfolding res by (rule sorted_sort_key)
  have all: "\<forall>op :: opinion. match_index ref (words_of (html_columbia op)) \<le> int (length ref)"
    using assms(2) match_index_le by blast
  have "\<forall>x \<in> set (map ?entry opinions). snd (snd x) \<le> int (length ref)"
    using all by simp
  then have le: "snd (snd x) \<le> int (length ref)" if "x \<in> set res" for x
    using that unfolding res by auto
  have l: "\<forall>j k. j < k \<and> k < length res \<and> snd (snd (res ! j)) = int (length ref)
          \<longrightarrow> snd (snd (res ! k)) = int (length ref)"
  proof (intro allI impI)
    fix j k
    assume a: "j < k \<and> k < length res \<and> snd (snd (res ! j)) = int (length ref)"
    from s have "sorted (map (\<lambda>x. snd (snd x)) res)" unfolding key .
    with a have "map (\<lambda>x. snd (snd x)) res ! j \<le> map (\<lambda>x. snd (snd x)) res ! k"
      by (intro sorted_nth_mono) auto
    with a have "int (length ref) \<le> snd (snd (res ! k))" by simp
    moreover from a have "snd (snd (res ! k)) \<le> int (length ref)" by (intro le) simp
    ultimately show "snd (snd (res ! k)) = int (length ref)" by simp
  qed
  from x m u f s l show ?thesis by blast
qed

theorem unmatched_opinions_sort_last_witness:
  "(\<forall>h. [] \<notin> set (example_words_of h))
   \<and> match_text example_read_text example_words_of example_opinions ''/opt/columbia''
       = Inr [(2, ''020lead'', 4), (1, ''040dissent'', 23)]
   \<and> get_xml example_read_text (py_replace (local_path (hd example_opinions))
          ''/home/mlissner/columbia/opinions'' ''/opt/columbia'')
       = Inr ''the quick brown fox the''
   \<and> match_index ''the quick brown fox the'' (example_words_of ''<p>the cat</p>'') = 23
   \<and> match_index ''the quick brown fox the'' (example_words_of ''<p>quick brown</p>'') < 23"
proof -
  let ?ref = "''the quick brown fox the''"
  have w: "\<forall>h. [] \<notin> set (example_words_of h)"
    by (simp add: example_words_of_def)
  have m: "match_text example_read_text example_words_of example_opinions ''/opt/columbia''
       = Inr [(2, ''020lead'', 4), (1, ''040dissent'', 23)]"
    by code_simp
  have x: "get_xml example_read_text (py_replace (local_path (hd example_opinions))
          ''/home/mlissner/columbia/opinions'' ''/opt/columbia'') = Inr ?ref"
    by code_simp
  have c1: "\<forall>g \<in> set (generate_ngrams (example_words_of ''<p>the cat</p>'')).
      py_count ?ref (join_words g) \<noteq> 1"
    by code_simp
  have c2: "\<exists>g \<in> set (generate_ngrams (example_words_of ''<p>quick brown</p>'')).
      py_count ?ref (join_words g) = 1"
    by code_simp
  have o1: "\<lparr>op_id = 1, op_type = ''040dissent'', html_columbia = ''<p>the cat</p>'',
       local_path = ''/home/mlissner/columbia/opinions/x.xml''\<rparr> \<in> set example_opinions"
    and o2: "\<lparr>op_id = 2, op_type = ''020lead'', html_columbia = ''<p>quick brown</p>'',
       local_path = ''/home/mlissner/columbia/opinions/x.xml''\<rparr> \<in> set example_opinions"
    by (simp_all add: example_opinions_def)
  from unmatched_opinions_sort_last [OF m w] x
  have u: "\<forall>op \<in> set example_opinions.
          (\<forall>g \<in> set (generate_ngrams (example_words_of (html_columbia op))).
              py_count ?ref (join_words g) \<noteq> 1)
          \<longrightarrow> match_index ?ref (example_words_of (html_columbia op)) = int (length ?ref)"
    and f: "\<forall>op \<in> set example_opinions.
          (\<exists>g \<in> set (generate_ngrams (example_words_of (html_columbia op))).
              py_count ?ref (join_words g) = 1)
          \<longrightarrow> match_index ?ref (example_words_of (html_columbia op)) < int (length ?ref)"
    by auto
  from u [rule_format, OF o1] c1
  have a: "match_index ?ref (example_words_of ''<p>the cat</p>'') = 23" by simp
  from f [rule_format, OF o2] c2
  have b: "match_index ?ref (example_words_of ''<p>quick brown</p>'') < 23" by simp
  from w m x a b show ?thesis by blast
qed

end
